theory Spec2Isabelle
  imports Complex_Main
begin

section \<open>Replicant: a shallow embedding of \<^verbatim>\<open>replicant.cmajor\<close>\<close>

text \<open>
  Conventions of the embedding.
  \<^item> Values of the types \<^verbatim>\<open>float\<close> and \<^verbatim>\<open>float64\<close> are real numbers. The rounding of
    32-bit arithmetic is written out, with \<open>f32\<close>, where a property stated below depends on
    it: in the literal \<^verbatim>\<open>3.98f\<close> of the delay time, whose product is truncated to an
    integer, and in the two sums of the phase accumulator, in \<^verbatim>\<open>processPhasor\<close> and inside
    \<^verbatim>\<open>wrap\<close>. Everywhere else an operation returns the exact result and a decimal literal
    stands for the decimal it is written as: an equation between such values is an equation
    of exact results, which the values of the program match up to rounding.
  \<^item> Values of type \<^verbatim>\<open>int\<close> are unbounded integers; no computation of the engine comes
    near the 32-bit range at an audio sample rate.
  \<^item> A variable of type \<^verbatim>\<open>wrap<N>\<close> is a natural number, and every operation that stores
    into it writes the reduction modulo \<open>N\<close> out.
  \<^item> A processor's \<^verbatim>\<open>main\<close> is a coroutine that yields at \<^verbatim>\<open>advance()\<close>. Its local
    variables become a record, one pass through a loop body becomes a function from the
    record to the updated record and the sample written to the output stream, and a loop
    becomes a recursion that collects the frames (updated record, sample) in order.
    Variables declared without an initial value start at zero.
  \<^item> Two writes to the same output stream within one frame are summed.
\<close>

subsection \<open>Built-in operations of the language\<close>

text \<open>The cast \<^verbatim>\<open>int (x)\<close> of a floating-point value truncates towards zero.\<close>

definition to_int :: "real \<Rightarrow> int" where
  "to_int x = (if 0 \<le> x then \<lfloor>x\<rfloor> else \<lceil>x\<rceil>)"

text \<open>
  Rounding to the nearest 32-bit floating-point number, ties to even: a significand of 24
  bits, so that a number of binary exponent \<open>e\<close> is rounded to a multiple of \<open>2^(e - 23)\<close>,
  and numbers below \<open>2^(-126)\<close> share the exponent \<open>-126\<close>. Overflow beyond the largest
  finite number is left out.
\<close>

definition pow2 :: "int \<Rightarrow> real" where
  "pow2 e = (if 0 \<le> e then 2 ^ nat e else 1 / 2 ^ nat (- e))"

definition round_even :: "real \<Rightarrow> int" where
  "round_even r =
     (let fl = \<lfloor>r\<rfloor>
      in if r - real_of_int fl < 1 / 2 then fl
         else if 1 / 2 < r - real_of_int fl then fl + 1
         else if even fl then fl else fl + 1)"

definition expo32 :: "real \<Rightarrow> int" where
  "expo32 x = max (- 126) \<lfloor>log 2 \<bar>x\<bar>\<rfloor>"

definition f32 :: "real \<Rightarrow> real" where
  "f32 x = (let u = pow2 (expo32 x - 23) in real_of_int (round_even (x / u)) * u)"

text \<open>\<^verbatim>\<open>clamp (value, low, high)\<close>.\<close>

definition clamp :: "real \<Rightarrow> real \<Rightarrow> real \<Rightarrow> real" where
  "clamp v lo hi = (if v < lo then lo else if hi < v then hi else v)"

text \<open>
  \<^verbatim>\<open>fmod\<close> and the floating-point \<^verbatim>\<open>wrap (value, size)\<close>: the remainder of the truncated
  division, moved up by the size when it is negative. The remainder of a 32-bit number is
  a 32-bit number; the sum that moves it up is a 32-bit addition, and is rounded.
\<close>

definition fmod :: "real \<Rightarrow> real \<Rightarrow> real" where
  "fmod x y = x - y * real_of_int (to_int (x / y))"

definition wrap :: "real \<Rightarrow> real \<Rightarrow> real" where
  "wrap v sz = (if sz = 0 then 0 else let n = fmod v sz in if n < 0 then f32 (n + sz) else n)"

text \<open>Conversion of an \<^verbatim>\<open>int\<close> to \<^verbatim>\<open>wrap<N>\<close>: the non-negative remainder modulo \<open>N\<close>.\<close>

definition wrap_to :: "nat \<Rightarrow> int \<Rightarrow> nat" where
  "wrap_to N v = nat (v mod int N)"

text \<open>\<^verbatim>\<open>array.at (index)\<close>: the index is wrapped into the array's bounds.\<close>

definition at_wrap :: "'a list \<Rightarrow> int \<Rightarrow> 'a" where
  "at_wrap xs i = xs ! wrap_to (length xs) i"

definition twoPi :: real where
  "twoPi = 2 * pi"

text \<open>
  Modelled from the spec: \<^verbatim>\<open>std::notes::noteToFrequency\<close> belongs to the language's standard
  library and is not part of the repository; the specification gives the equal-tempered
  mapping \<open>f = 440 \<times> 2^((note - 69) / 12)\<close>.
\<close>

definition noteToFrequency :: "real \<Rightarrow> real" where
  "noteToFrequency note = 440 * 2 powr ((note - 69) / 12)"

subsection \<open>Namespace constants and the sample clock\<close>

definition clock :: int where
  "clock = 9"

text \<open>\<^verbatim>\<open>processor.period\<close> is the reciprocal of \<^verbatim>\<open>processor.frequency\<close>.\<close>

definition period :: "real \<Rightarrow> real" where
  "period frequency = 1 / frequency"

text \<open>\<^verbatim>\<open>int (processor.frequency / clock)\<close>, in Lead and in Bass.\<close>

definition samplesPerQuarterNote :: "real \<Rightarrow> int" where
  "samplesPerQuarterNote frequency = to_int (frequency / real_of_int clock)"

subsection \<open>Waveform primitives\<close>

definition pdSawtooth :: "real \<Rightarrow> real \<Rightarrow> real" where
  "pdSawtooth phase dcw0 =
     (let dcw1 = clamp dcw0 0.001 0.999;
          dcw = (1 - dcw1) * 0.5;
          hmdcw = 0.5 - dcw;
          arg1 = phase * (hmdcw / dcw);
          arg2 = (-1 * phase + 1) * (hmdcw / (1 - dcw));
          pd = phase + min arg1 arg2
      in - cos (pd * twoPi))"

definition pwm :: "real \<Rightarrow> real \<Rightarrow> real" where
  "pwm phase pw0 =
     (let pw = clamp pw0 0.01 0.99
      in ((phase + (wrap (phase + pw) 1 * -1) + pw) * 2) - 1)"

definition triangle :: "real \<Rightarrow> real" where
  "triangle phase = 1 - \<bar>(phase * 2) - 1\<bar>"

text \<open>
  \<^verbatim>\<open>processPhasor\<close> and \<^verbatim>\<open>processSmoother\<close> update their first argument through a reference
  and return it: the model returns the pair (updated variable, returned value). The sum
  \<^verbatim>\<open>phase + phaseIncr\<close> is a 32-bit addition.
\<close>

definition processPhasor :: "real \<Rightarrow> real \<Rightarrow> real \<times> real" where
  "processPhasor phase phaseIncr =
     (let phase' = wrap (f32 (phase + phaseIncr)) 1 in (phase', phase'))"

definition processSmoother :: "real \<Rightarrow> real \<Rightarrow> real \<times> real" where
  "processSmoother outm1 inp = (let outm1' = (inp * 0.01) + (outm1 * 0.99) in (outm1', outm1'))"

text \<open>
  A phase accumulator driven by a sequence of increments: the phases held after each call
  of \<^verbatim>\<open>processPhasor\<close>, in order.
\<close>

fun phasor_run :: "real \<Rightarrow> real list \<Rightarrow> real list" where
  "phasor_run phase [] = []"
| "phasor_run phase (phaseIncr # incrs) =
     (let (phase', r) = processPhasor phase phaseIncr in phase' # phasor_run phase' incrs)"

subsection \<open>Processor Delay\<close>

record Delay_state =
  buffer :: "real list"
  bufferIdx :: nat
  lastv :: real

definition Delay_init :: Delay_state where
  "Delay_init = \<lparr>buffer = replicate 44100 0, bufferIdx = 0, lastv = 0\<rparr>"

text \<open>
  \<^verbatim>\<open>int ((processor.frequency / clock) * 3.98f)\<close>: the factor is the 32-bit number nearest
  to 3.98, which is 8346665 / 2097152; quotient and product are 64-bit.
\<close>

definition delayTime :: "real \<Rightarrow> int" where
  "delayTime frequency = to_int ((frequency / real_of_int clock) * f32 3.98)"

text \<open>The position read in a frame: \<^verbatim>\<open>wrap<44100> (bufferIdx - delayTime)\<close>.\<close>

definition Delay_readIdx :: "int \<Rightarrow> Delay_state \<Rightarrow> nat" where
  "Delay_readIdx dt s = wrap_to 44100 (int (bufferIdx s) - dt)"

text \<open>One pass through the loop of \<^verbatim>\<open>Delay.main\<close>, for the input sample \<open>audioIn\<close>.\<close>

definition Delay_frame :: "real \<Rightarrow> int \<Rightarrow> Delay_state \<Rightarrow> real \<Rightarrow> Delay_state \<times> real" where
  "Delay_frame feedbackLevel dt s audioIn =
     (let out = buffer s ! Delay_readIdx dt s;
          s1 = s\<lparr>lastv := out\<rparr>;
          s2 = s1\<lparr>buffer := (buffer s1)[bufferIdx s1 := audioIn + (lastv s1 * feedbackLevel)],
                  bufferIdx := (bufferIdx s1 + 1) mod 44100\<rparr>
      in (s2, out))"

fun Delay_loop ::
  "real \<Rightarrow> int \<Rightarrow> Delay_state \<Rightarrow> real list \<Rightarrow> Delay_state \<times> (Delay_state \<times> real) list" where
  "Delay_loop feedbackLevel dt s [] = (s, [])"
| "Delay_loop feedbackLevel dt s (audioIn # ins) =
     (let (s1, out) = Delay_frame feedbackLevel dt s audioIn;
          (s2, frames) = Delay_loop feedbackLevel dt s1 ins
      in (s2, (s1, out) # frames))"

text \<open>
  \<^verbatim>\<open>Delay.main\<close> at a sample rate, fed the samples \<open>ins\<close>: the frames it renders. No
  statement of \<^verbatim>\<open>main\<close> stands between the declarations and the loop but the computation
  of \<^verbatim>\<open>delayTime\<close>.
\<close>

definition Delay_main :: "real \<Rightarrow> real \<Rightarrow> real list \<Rightarrow> (Delay_state \<times> real) list" where
  "Delay_main feedbackLevel frequency ins =
     snd (Delay_loop feedbackLevel (delayTime frequency) Delay_init ins)"

subsection \<open>Processor Lead\<close>

definition triggerArray :: "int list" where
  "triggerArray =
     [1,0,0,0,0,0,0,0,0,0,0,0,0,0,0,0,
      1,0,0,0,0,0,0,0,1,0,0,0,0,0,0,0,
      1,0,0,0,0,0,0,0,0,0,0,0,0,0,0,0,
      0,0,0,0,0,0,0,0,0,0,0,0,0,0,0,0,
      1,0,0,0,0,0,0,0,0,0,0,0,0,0,0,0,
      1,0,0,0,0,0,0,0,1,0,0,0,0,0,0,0,
      1,0,0,0,0,0,0,0,0,0,0,0,0,0,0,0,
      0,0,0,0,0,0,0,0,0,0,0,0,0,0,0,0,
      1,0,0,0,0,0,0,0,0,0,0,0,0,0,0,0,
      1,0,0,0,0,0,0,0,1,0,0,0,0,0,0,0,
      1,0,0,0,0,0,0,0,0,0,0,0,0,0,0,0,
      0,0,0,0,0,0,0,0,1,0,0,0,1,0,0,0,
      1,0,0,0,0,0,0,0,0,0,0,0,0,0,0,0,
      0,0,0,0,0,0,0,0,0,0,0,0,0,0,0,0,
      0,0,0,0,0,0,0,0,0,0,0,0,0,0,0,0,
      0,0,0,0,0,0,0,0,0,0,0,0,0,0,0,0]"

definition pitchArray :: "int list" where
  "pitchArray = [69,67,65,64,67,66,64,62,65,64,62,57,55,60,57]"

record Lead_state =
  playHead :: nat
  pitchIdx :: nat
  trig :: bool
  osc1PhaseIncr :: real
  osc2PhaseIncr :: real
  osc1Phasor :: real
  osc2Phasor :: real
  lfoPhasor :: real
  envPhasor :: real
  smootherOutm1 :: real
  basePitch :: int
  gate :: real

definition Lead_init :: Lead_state where
  "Lead_init =
     \<lparr>playHead = 0, pitchIdx = 0, trig = True, osc1PhaseIncr = 0, osc2PhaseIncr = 0,
      osc1Phasor = 0, osc2Phasor = 0, lfoPhasor = 0, envPhasor = 0, smootherOutm1 = 0,
      basePitch = 0, gate = 0\<rparr>"

definition envPhaseIncr :: "real \<Rightarrow> real" where
  "envPhaseIncr frequency = period frequency * 4"

definition lfoPhaseIncr :: "real \<Rightarrow> real" where
  "lfoPhaseIncr frequency = period frequency * 0.8"

text \<open>
  The body of the inner loop of \<^verbatim>\<open>Lead.main\<close> in two parts. The first is the conditional on
  the trigger pattern; the pattern is an argument, so that the sequencer can be studied on
  any pattern of 256 cells, and the processor itself runs it on \<open>triggerArray\<close>.
\<close>

definition Lead_trigger :: "int list \<Rightarrow> Lead_state \<Rightarrow> Lead_state" where
  "Lead_trigger trigs s =
     (if trigs ! playHead s > 0 then
        (if trig s then
           s\<lparr>basePitch := at_wrap pitchArray (int (pitchIdx s)),
             pitchIdx := (pitchIdx s + 1) mod 15,
             envPhasor := 0,
             trig := False\<rparr>
         else s)
      else s)"

text \<open>The second part: envelope, vibrato, the two oscillators and the sample of the frame.\<close>

definition Lead_voice :: "real \<Rightarrow> Lead_state \<Rightarrow> Lead_state \<times> real" where
  "Lead_voice frequency s =
     (let envPh = envPhasor s + envPhaseIncr frequency;
          (sm, e) = processSmoother (smootherOutm1 s) (clamp envPh 0 1);
          env = e * gate s;
          (lfo, l) = processPhasor (lfoPhasor s) (lfoPhaseIncr frequency);
          lfoMod = (sin (l * twoPi) * 0.1) * env;
          incr1 = noteToFrequency (real_of_int (basePitch s) + lfoMod) * period frequency;
          incr2 = noteToFrequency (real_of_int (basePitch s) + lfoMod + 0.1) * period frequency;
          (ph1, p1) = processPhasor (osc1Phasor s) incr1;
          (ph2, p2) = processPhasor (osc2Phasor s) incr2
      in (s\<lparr>envPhasor := envPh, smootherOutm1 := sm, lfoPhasor := lfo,
             osc1PhaseIncr := incr1, osc2PhaseIncr := incr2,
             osc1Phasor := ph1, osc2Phasor := ph2\<rparr>,
          0.15 * pdSawtooth p1 0.9 * env + 0.15 * pdSawtooth p2 0.91 * env))"

definition Lead_frame :: "int list \<Rightarrow> real \<Rightarrow> Lead_state \<Rightarrow> Lead_state \<times> real" where
  "Lead_frame trigs frequency s = Lead_voice frequency (Lead_trigger trigs s)"

text \<open>The inner loop \<^verbatim>\<open>loop (noteLength)\<close>: \<open>n\<close> frames.\<close>

fun Lead_note ::
  "int list \<Rightarrow> real \<Rightarrow> nat \<Rightarrow> Lead_state \<Rightarrow> Lead_state \<times> (Lead_state \<times> real) list" where
  "Lead_note trigs frequency 0 s = (s, [])"
| "Lead_note trigs frequency (Suc n) s =
     (let (s1, out) = Lead_frame trigs frequency s;
          (s2, frames) = Lead_note trigs frequency n s1
      in (s2, (s1, out) # frames))"

text \<open>The statements of the outer loop after the inner loop.\<close>

definition Lead_step_end :: "Lead_state \<Rightarrow> Lead_state" where
  "Lead_step_end s =
     (let s1 = s\<lparr>playHead := (playHead s + 1) mod 256\<rparr>;
          s2 = (if playHead s1 = 0 then s1\<lparr>gate := 1\<rparr> else s1)
      in s2\<lparr>trig := True\<rparr>)"

text \<open>
  One pass through the outer loop. A count that is not positive runs the inner loop no
  time at all.
\<close>

definition Lead_step ::
  "int list \<Rightarrow> real \<Rightarrow> Lead_state \<Rightarrow> Lead_state \<times> (Lead_state \<times> real) list" where
  "Lead_step trigs frequency s =
     (let noteLength = samplesPerQuarterNote frequency * 1;
          (s1, frames) = Lead_note trigs frequency (nat noteLength) s
      in (Lead_step_end s1, frames))"

text \<open>
  The outer loop never ends; \<open>Lead_main trigs frequency k s\<close> is the state after \<open>k\<close> passes
  from \<open>s\<close>, with the frames rendered on the way.
\<close>

fun Lead_main ::
  "int list \<Rightarrow> real \<Rightarrow> nat \<Rightarrow> Lead_state \<Rightarrow> Lead_state \<times> (Lead_state \<times> real) list" where
  "Lead_main trigs frequency 0 s = (s, [])"
| "Lead_main trigs frequency (Suc k) s =
     (let (s1, frames1) = Lead_main trigs frequency k s;
          (s2, frames2) = Lead_step trigs frequency s1
      in (s2, frames1 @ frames2))"

text \<open>
  The first \<open>n\<close> samples of the Lead's output stream. When a quarter note has at least one
  sample, \<open>n\<close> passes of the outer loop render at least \<open>n\<close> frames.
\<close>

definition Lead_out :: "real \<Rightarrow> nat \<Rightarrow> real list" where
  "Lead_out frequency n =
     take n (map snd (snd (Lead_main triggerArray frequency n Lead_init)))"

subsection \<open>Processor Bass\<close>

definition arp :: "int list" where
  "arp = [57,57,59,60]"

definition rootNotes :: "int list" where
  "rootNotes = [0,0,7,2,5,5,0,0]"

record Bass_state =
  osc1Phasor_b :: real
  osc2Phasor_b :: real
  lfoPhasor_b :: real
  rootIdx :: nat
  playHead_b :: nat

definition Bass_init :: Bass_state where
  "Bass_init = \<lparr>osc1Phasor_b = 0, osc2Phasor_b = 0, lfoPhasor_b = 0, rootIdx = 0, playHead_b = 0\<rparr>"

text \<open>The note number handed to \<^verbatim>\<open>noteToFrequency\<close> at the head of the outer loop.\<close>

definition Bass_noteNumber :: "Bass_state \<Rightarrow> int" where
  "Bass_noteNumber s =
     at_wrap arp (int (playHead_b s) mod 4) + at_wrap rootNotes (int (rootIdx s)) - 12"

text \<open>
  One pass through the inner loop of \<^verbatim>\<open>Bass.main\<close>. The envelope \<open>env\<close> is a local variable
  of the outer loop's body, so it travels with the state through the inner loop.
\<close>

definition Bass_frame ::
  "real \<Rightarrow> real \<Rightarrow> real \<Rightarrow> int \<Rightarrow> Bass_state \<times> real \<Rightarrow> (Bass_state \<times> real) \<times> real" where
  "Bass_frame osc1Incr osc2Incr lfoIncr spq se =
     (let (s, env) = se;
          (ph1, p1) = processPhasor (osc1Phasor_b s) osc1Incr;
          (lfo, l) = processPhasor (lfoPhasor_b s) lfoIncr;
          (ph2, p2) = processPhasor (osc2Phasor_b s) osc2Incr;
          out = (0.3 * pwm p1 (triangle l)) * env + (0.3 * pdSawtooth p2 0.9);
          env' = env - (1 / real_of_int spq)
      in ((s\<lparr>osc1Phasor_b := ph1, osc2Phasor_b := ph2, lfoPhasor_b := lfo\<rparr>, env'), out))"

fun Bass_note ::
  "real \<Rightarrow> real \<Rightarrow> real \<Rightarrow> int \<Rightarrow> nat \<Rightarrow> Bass_state \<times> real
     \<Rightarrow> (Bass_state \<times> real) \<times> (Bass_state \<times> real) list" where
  "Bass_note osc1Incr osc2Incr lfoIncr spq 0 se = (se, [])"
| "Bass_note osc1Incr osc2Incr lfoIncr spq (Suc n) se =
     (let (se1, out) = Bass_frame osc1Incr osc2Incr lfoIncr spq se;
          (se2, frames) = Bass_note osc1Incr osc2Incr lfoIncr spq n se1
      in (se2, (fst se1, out) # frames))"

definition Bass_step_end :: "Bass_state \<Rightarrow> Bass_state" where
  "Bass_step_end s =
     (let s1 = s\<lparr>playHead_b := (playHead_b s + 1) mod 32\<rparr>
      in if playHead_b s1 = 0 then s1\<lparr>rootIdx := (rootIdx s1 + 1) mod 8\<rparr> else s1)"

text \<open>
  One pass through the outer loop: the new state, and the quarter note it rendered as the
  note number synthesized together with the frames.
\<close>

definition Bass_step ::
  "real \<Rightarrow> Bass_state \<Rightarrow> Bass_state \<times> (int \<times> (Bass_state \<times> real) list)" where
  "Bass_step frequency s =
     (let note = Bass_noteNumber s;
          noteFrequency = noteToFrequency (real_of_int note);
          noteLength = samplesPerQuarterNote frequency;
          osc1PhaseIncr = noteFrequency * period frequency;
          osc2PhaseIncr = noteFrequency * period frequency * 0.5;
          lfoPhaseIncr = 0.3 * period frequency;
          env = 1;
          ((s1, env1), frames) =
             Bass_note osc1PhaseIncr osc2PhaseIncr lfoPhaseIncr (samplesPerQuarterNote frequency)
               (nat noteLength) (s, env)
      in (Bass_step_end s1, (note, frames)))"

fun Bass_main ::
  "real \<Rightarrow> nat \<Rightarrow> Bass_state \<Rightarrow> Bass_state \<times> (int \<times> (Bass_state \<times> real) list) list" where
  "Bass_main frequency 0 s = (s, [])"
| "Bass_main frequency (Suc k) s =
     (let (s1, notes) = Bass_main frequency k s;
          (s2, note) = Bass_step frequency s1
      in (s2, notes @ [note]))"

definition Bass_out :: "real \<Rightarrow> nat \<Rightarrow> real list" where
  "Bass_out frequency n =
     take n (map snd (concat (map snd (snd (Bass_main frequency n Bass_init)))))"

subsection \<open>Graph Replicant\<close>

text \<open>
  The first \<open>n\<close> frames of the three streams connected to the graph's output, and their sum.
  The delay's input is the Lead's output; its feedback level is 0.35.
\<close>

definition Delay_out :: "real \<Rightarrow> nat \<Rightarrow> real list" where
  "Delay_out frequency n = map snd (Delay_main 0.35 frequency (Lead_out frequency n))"

definition Replicant :: "real \<Rightarrow> nat \<Rightarrow> real list" where
  "Replicant frequency n =
     map (\<lambda>(b, l, d). b + l + d)
       (zip (Bass_out frequency n) (zip (Lead_out frequency n) (Delay_out frequency n)))"

subsection \<open>Predicates on states\<close>

text \<open>The write cursor of the delay lies within the buffer, which has its declared size.\<close>

definition Delay_inv :: "Delay_state \<Rightarrow> bool" where
  "Delay_inv s = (bufferIdx s < 44100 \<and> length (buffer s) = 44100)"

text \<open>Every cell of the delay buffer holds zero.\<close>

definition zero_buffer :: "Delay_state \<Rightarrow> bool" where
  "zero_buffer s = list_all (\<lambda>x. x = 0) (buffer s)"

text \<open>The indices of the Lead lie within the arrays they index.\<close>

definition Lead_inv :: "Lead_state \<Rightarrow> bool" where
  "Lead_inv s = (playHead s < length triggerArray \<and> pitchIdx s < length pitchArray)"

text \<open>The indices of the Bass lie within their declared ranges.\<close>

definition Bass_inv :: "Bass_state \<Rightarrow> bool" where
  "Bass_inv s = (playHead_b s < 32 \<and> rootIdx s < length rootNotes)"

text \<open>A phase at least 0 and below 1, and the three phases of a voice.\<close>

definition unit_phase :: "real \<Rightarrow> bool" where
  "unit_phase p = (0 \<le> p \<and> p < 1)"

definition Lead_phases :: "Lead_state \<Rightarrow> bool" where
  "Lead_phases s = (unit_phase (osc1Phasor s) \<and> unit_phase (osc2Phasor s) \<and> unit_phase (lfoPhasor s))"

definition Bass_phases :: "Bass_state \<Rightarrow> bool" where
  "Bass_phases s =
     (unit_phase (osc1Phasor_b s) \<and> unit_phase (osc2Phasor_b s) \<and> unit_phase (lfoPhasor_b s))"

section \<open>Properties\<close>

subsection \<open>Casts and wrapping\<close>

lemma wrap_to_less: "0 < N \<Longrightarrow> wrap_to N v < N"
  by (simp add: wrap_to_def nat_less_iff)

subsection \<open>Rounding to 32 bits\<close>

lemma pow2_pos: "0 < pow2 e"
  by (simp add: pow2_def)

lemma pow2_powr: "pow2 e = 2 powr real_of_int e"
  by (simp add: pow2_def powr_real_of_int inverse_eq_divide)

lemma floor_log2_eq:
  assumes "0 < x" "pow2 e \<le> x" "x < pow2 (e + 1)"
  shows "\<lfloor>log 2 x\<rfloor> = e"
proof -
  have "real_of_int e \<le> log 2 x"
    using assms(1,2) by (simp add: le_log_iff pow2_powr)
  moreover have "log 2 x < real_of_int (e + 1)"
    using assms(1,3) by (simp add: log_less_iff pow2_powr)
  ultimately show ?thesis by (simp add: floor_eq_iff)
qed

text \<open>The exponent of a number that lies in a known binade.\<close>

lemma expo32_eq:
  assumes "- 126 \<le> e" "pow2 e \<le> \<bar>x\<bar>" "\<bar>x\<bar> < pow2 (e + 1)"
  shows "expo32 x = e"
proof -
  have "0 < \<bar>x\<bar>" using assms(2) pow2_pos [of e] by linarith
  from floor_log2_eq [OF this assms(2,3)] show ?thesis using assms(1) by (simp add: expo32_def)
qed

lemma round_even_nonneg: "0 \<le> r \<Longrightarrow> 0 \<le> round_even r"
  by (simp add: round_even_def Let_def)

lemma round_even_le: "r \<le> real_of_int N \<Longrightarrow> round_even r \<le> N"
proof -
  assume le: "r \<le> real_of_int N"
  then have fl: "\<lfloor>r\<rfloor> \<le> N" by (simp add: floor_le_iff)
  show ?thesis
  proof (cases "\<lfloor>r\<rfloor> = N")
    case True
    then have "r - real_of_int \<lfloor>r\<rfloor> \<le> 0" using le by simp
    then show ?thesis using True by (simp add: round_even_def Let_def)
  next
    case False
    then have "\<lfloor>r\<rfloor> + 1 \<le> N" using fl by simp
    then show ?thesis by (simp add: round_even_def Let_def)
  qed
qed

lemma f32_zero: "f32 0 = 0"
  by (simp add: f32_def round_even_def)

lemma f32_nonneg: "0 \<le> x \<Longrightarrow> 0 \<le> f32 x"
  using pow2_pos [of "expo32 x - 23"]
  by (simp add: f32_def Let_def round_even_nonneg)

text \<open>Rounding does not carry a number of the unit interval beyond 1.\<close>

lemma f32_le_one:
  assumes "0 \<le> y" "y \<le> 1"
  shows "f32 y \<le> 1"
proof (cases "y = 0")
  case True
  then show ?thesis by (simp add: f32_zero)
next
  case False
  then have pos: "0 < y" using assms(1) by simp
  let ?e = "expo32 y"
  let ?N = "(2::int) ^ nat (23 - ?e)"
  have "log 2 y \<le> 0" using pos assms(2) by simp
  then have "\<lfloor>log 2 \<bar>y\<bar>\<rfloor> \<le> 0" using pos by (simp add: floor_le_iff)
  then have e: "?e \<le> 0" by (simp add: expo32_def)
  then have u: "pow2 (?e - 23) = 1 / real_of_int ?N"
    by (simp add: pow2_def)
  have N: "0 < real_of_int ?N" by simp
  have "y / pow2 (?e - 23) = y * real_of_int ?N" by (simp add: u)
  also have "\<dots> \<le> real_of_int ?N" using assms(2) N by (simp add: mult_le_cancel_right1)
  finally have "round_even (y / pow2 (?e - 23)) \<le> ?N" by (rule round_even_le)
  then have "real_of_int (round_even (y / pow2 (?e - 23))) \<le> real_of_int ?N"
    by (simp only: of_int_le_iff)
  then have "real_of_int (round_even (y / pow2 (?e - 23))) * (1 / real_of_int ?N) \<le> 1"
    using N by (simp add: field_simps)
  then show ?thesis by (simp add: f32_def Let_def u)
qed

text \<open>The value of the literal \<^verbatim>\<open>3.98f\<close>, and three roundings near the unit interval.\<close>

lemma f32_3_98: "f32 3.98 = 8346665 / 2097152"
proof -
  have "expo32 3.98 = 1"
    by (rule expo32_eq) (simp_all add: pow2_def)
  then show ?thesis
    by (simp add: f32_def pow2_def round_even_def Let_def)
qed

lemma f32_neg_small: "f32 (- (1 / 2 ^ 30)) = - (1 / 2 ^ 30)"
proof -
  have "expo32 (- (1 / 2 ^ 30)) = - 30"
    by (rule expo32_eq) (simp_all add: pow2_def)
  then show ?thesis
    by (simp add: f32_def pow2_def round_even_def Let_def)
qed

lemma f32_below_one: "f32 (1 - 1 / 2 ^ 30) = 1"
proof -
  have "expo32 (1 - 1 / 2 ^ 30) = - 1"
    by (rule expo32_eq) (simp_all add: pow2_def)
  then show ?thesis
    by (simp add: f32_def pow2_def round_even_def Let_def)
qed

lemma f32_three_quarters: "f32 (3 / 4) = 3 / 4"
proof -
  have "expo32 (3 / 4) = - 1"
    by (rule expo32_eq) (simp_all add: pow2_def)
  then show ?thesis
    by (simp add: f32_def pow2_def round_even_def Let_def)
qed

lemma f32_five_quarters: "f32 (5 / 4) = 5 / 4"
proof -
  have "expo32 (5 / 4) = 0"
    by (rule expo32_eq) (simp_all add: pow2_def)
  then show ?thesis
    by (simp add: f32_def pow2_def round_even_def Let_def)
qed

subsection \<open>The delay time against the buffer capacity\<close>

lemma delayTime_nonneg_eq: "0 \<le> R \<Longrightarrow> delayTime R = \<lfloor>R / 9 * (8346665 / 2097152)\<rfloor>"
  by (simp only: delayTime_def f32_3_98) (simp add: to_int_def clock_def)

text \<open>
  C1, as stated: for every sample rate between 44100 and 192000 the delay time is below the
  capacity 44100 of the buffer. At 192000 the delay time is 84906, so the statement fails.
\<close>

theorem delayTime_192000_counterexample:
  "(44100::real) \<le> 192000 \<and> (192000::real) \<le> 192000 \<and> delayTime 192000 = 84906
     \<and> \<not> delayTime 192000 < 44100"
  by (simp add: delayTime_nonneg_eq)

lemma delayTime_below: "0 \<le> R \<Longrightarrow> R \<le> 99723 \<Longrightarrow> delayTime R < 44100"
proof -
  assume R: "0 \<le> R" "R \<le> 99723"
  then have "R / 9 * (8346665 / 2097152) < 44100" by simp
  then have "\<lfloor>R / 9 * (8346665 / 2097152)\<rfloor> < 44100" by (simp only: floor_less_iff)
  then show ?thesis using R(1) by (simp add: delayTime_nonneg_eq)
qed

lemma delayTime_reaches: "99724 \<le> R \<Longrightarrow> 44100 \<le> delayTime R"
proof -
  assume R: "99724 \<le> R"
  then have "44100 \<le> R / 9 * (8346665 / 2097152)" by simp
  then have "44100 \<le> \<lfloor>R / 9 * (8346665 / 2097152)\<rfloor>" by (simp only: le_floor_iff)
  then show ?thesis using R by (simp add: delayTime_nonneg_eq)
qed

text \<open>
  C1, amended: the delay time is below the capacity 44100 at every sample rate from 44100 to
  99723, and it has reached the capacity at every sample rate from 99724 to 192000; so among
  the whole-numbered sample rates from 44100 to 192000 it is below the capacity exactly for
  those up to 99723, which include every rate up to 96000. Both bounds leave the product more
  than a tenth away from 44100, far more than the rounding of the 64-bit quotient and
  product.
\<close>

theorem delayTime_below_capacity_up_to_99723:
  "(44100 \<le> R \<and> R \<le> 99723 \<longrightarrow> delayTime R < 44100)
   \<and> (99724 \<le> R \<and> R \<le> 192000 \<longrightarrow> 44100 \<le> delayTime R)
   \<and> (44100 \<le> r \<and> r \<le> 192000 \<longrightarrow> (delayTime (real_of_int r) < 44100 \<longleftrightarrow> r \<le> 99723))"
proof -
  have int_rates: "delayTime (real_of_int r) < 44100 \<longleftrightarrow> r \<le> 99723" if "44100 \<le> r"
  proof (cases "r \<le> 99723")
    case True
    then have "real_of_int r \<le> 99723" by simp
    moreover have "0 \<le> real_of_int r" using that by simp
    ultimately show ?thesis using True delayTime_below by blast
  next
    case False
    then have "99724 \<le> r" by simp
    then have "99724 \<le> real_of_int r" by simp
    from delayTime_reaches [OF this] show ?thesis using False by simp
  qed
  show ?thesis
    using delayTime_below [of R] delayTime_reaches [of R] int_rates by auto
qed

theorem delayTime_below_capacity_up_to_99723_witness:
  "(44100::real) \<le> 96000 \<and> (96000::real) \<le> 99723 \<and> delayTime 96000 < 44100
     \<and> (99724::real) \<le> 176400 \<and> (176400::real) \<le> 192000 \<and> 44100 \<le> delayTime 176400
     \<and> (44100::int) \<le> 88200 \<and> (88200::int) \<le> 192000 \<and> delayTime (real_of_int 88200) < 44100"
  using delayTime_below_capacity_up_to_99723 [of 96000 0]
    delayTime_below_capacity_up_to_99723 [of 176400 88200]
  by simp

subsection \<open>The phase accumulator\<close>

lemma fmod_one: "fmod x 1 = x - real_of_int (to_int x)"
  by (simp add: fmod_def)

lemma wrap_one_nonneg: "0 \<le> v \<Longrightarrow> 0 \<le> wrap v 1 \<and> wrap v 1 < 1"
proof -
  assume "0 \<le> v"
  then have n: "fmod v 1 = v - real_of_int \<lfloor>v\<rfloor>"
    by (simp add: fmod_one to_int_def)
  have nonneg: "\<not> v < real_of_int \<lfloor>v\<rfloor>" by linarith
  have below: "v - real_of_int \<lfloor>v\<rfloor> < 1" by linarith
  have "wrap v 1 = v - real_of_int \<lfloor>v\<rfloor>"
    using nonneg by (simp add: wrap_def Let_def n)
  then show ?thesis using nonneg below by linarith
qed

lemma wrap_one_closed: "0 \<le> wrap v 1 \<and> wrap v 1 \<le> 1"
proof (cases "0 \<le> v")
  case True
  from wrap_one_nonneg [OF this] show ?thesis by simp
next
  case False
  then have n: "fmod v 1 = v - real_of_int \<lceil>v\<rceil>"
    by (simp add: fmod_one to_int_def)
  let ?n = "v - real_of_int \<lceil>v\<rceil>"
  have range: "- 1 < ?n" "?n \<le> 0" by linarith+
  show ?thesis
  proof (cases "?n < 0")
    case True
    have "0 \<le> f32 (?n + 1)" using range by (intro f32_nonneg) simp
    moreover have "f32 (?n + 1) \<le> 1" using range by (intro f32_le_one) simp_all
    ultimately show ?thesis using True by (simp add: wrap_def Let_def n)
  next
    case False
    then have "?n = 0" using range by linarith
    then show ?thesis by (simp add: wrap_def Let_def n)
  qed
qed

lemma processPhasor_nonneg_range:
  "0 \<le> phase + phaseIncr \<Longrightarrow>
     0 \<le> fst (processPhasor phase phaseIncr) \<and> fst (processPhasor phase phaseIncr) < 1"
  by (simp add: processPhasor_def Let_def wrap_one_nonneg f32_nonneg)

lemma processPhasor_closed_range:
  "0 \<le> fst (processPhasor phase phaseIncr) \<and> fst (processPhasor phase phaseIncr) \<le> 1"
  by (simp add: processPhasor_def Let_def wrap_one_closed)

lemma phasor_run_closed: "\<forall>p \<in> set (phasor_run phase incrs). 0 \<le> p \<and> p \<le> 1"
proof (induction incrs arbitrary: phase)
  case Nil
  show ?case by simp
next
  case (Cons i incrs)
  show ?case
    using Cons.IH processPhasor_closed_range [of phase i]
    by (simp add: split_beta)
qed

lemma phasor_run_nonneg:
  "0 \<le> phase \<Longrightarrow> \<forall>i \<in> set incrs. 0 \<le> i \<Longrightarrow>
     \<forall>p \<in> set (phasor_run phase incrs). 0 \<le> p \<and> p < 1"
proof (induction incrs arbitrary: phase)
  case Nil
  show ?case by simp
next
  case (Cons i incrs)
  from Cons.prems have sum: "0 \<le> phase + i" by simp
  from processPhasor_nonneg_range [OF sum]
  have first: "0 \<le> fst (processPhasor phase i) \<and> fst (processPhasor phase i) < 1" .
  then have "0 \<le> fst (processPhasor phase i)" by simp
  from Cons.IH [OF this] Cons.prems(2)
  have "\<forall>p \<in> set (phasor_run (fst (processPhasor phase i)) incrs). 0 \<le> p \<and> p < 1" by simp
  then show ?case using first by (simp add: split_beta)
qed

lemma processPhasor_small_negative: "processPhasor 0 (- (1 / 2 ^ 30)) = (1, 1)"
proof -
  have a: "f32 (0 + - (1 / 2 ^ 30)) = - (1 / 2 ^ 30)"
    using f32_neg_small by simp
  have "\<lceil>- (1 / 2 ^ 30) :: real\<rceil> = 0"
    by (simp add: ceiling_eq_iff)
  then have b: "fmod (- (1 / 2 ^ 30)) 1 = - (1 / 2 ^ 30)"
    by (simp add: fmod_def to_int_def)
  have c: "f32 (- (1 / 2 ^ 30) + 1) = 1"
    using f32_below_one by simp
  have "wrap (- (1 / 2 ^ 30)) 1 = 1"
    by (simp only: wrap_def b Let_def c) simp
  then show ?thesis
    by (simp only: processPhasor_def a Let_def)
qed

lemma processPhasor_example:
  "processPhasor 0 (3 / 4) = (3 / 4, 3 / 4)" "processPhasor (3 / 4) (1 / 2) = (1 / 4, 1 / 4)"
proof -
  have a: "f32 (0 + 3 / 4) = 3 / 4" using f32_three_quarters by simp
  have b: "f32 (3 / 4 + 1 / 2) = 5 / 4" using f32_five_quarters by simp
  have "wrap (3 / 4) 1 = 3 / 4" by (simp add: wrap_def fmod_def to_int_def)
  then show "processPhasor 0 (3 / 4) = (3 / 4, 3 / 4)"
    by (simp only: processPhasor_def a Let_def)
  have "wrap (5 / 4) 1 = 1 / 4" by (simp add: wrap_def fmod_def to_int_def)
  then show "processPhasor (3 / 4) (1 / 2) = (1 / 4, 1 / 4)"
    by (simp only: processPhasor_def b Let_def)
qed

subsection \<open>The delay line\<close>

lemma Delay_readIdx_less: "Delay_readIdx dt s < 44100"
  by (simp add: Delay_readIdx_def wrap_to_less)

lemma Delay_init_inv: "Delay_inv Delay_init"
  by (simp add: Delay_inv_def Delay_init_def)

lemma Delay_frame_inv: "Delay_inv s \<Longrightarrow> Delay_inv (fst (Delay_frame fb dt s x))"
  by (simp add: Delay_inv_def Delay_frame_def Let_def)

lemma Delay_loop_length: "length (snd (Delay_loop fb dt s ins)) = length ins"
  by (induction ins arbitrary: s) (simp_all add: split_beta)

lemma Delay_loop_inv:
  "Delay_inv s \<Longrightarrow> (s', y) \<in> set (snd (Delay_loop fb dt s ins)) \<Longrightarrow> Delay_inv s'"
proof (induction ins arbitrary: s)
  case Nil
  then show ?case by simp
next
  case (Cons x ins)
  from Cons.prems(1) have inv1: "Delay_inv (fst (Delay_frame fb dt s x))"
    by (rule Delay_frame_inv)
  from Cons.prems(2)
  have "(s', y) = Delay_frame fb dt s x
          \<or> (s', y) \<in> set (snd (Delay_loop fb dt (fst (Delay_frame fb dt s x)) ins))"
    by (simp add: split_beta)
  then show ?case
  proof
    assume "(s', y) = Delay_frame fb dt s x"
    then have "s' = fst (Delay_frame fb dt s x)" by (metis fst_conv)
    with inv1 show ?thesis by simp
  next
    assume "(s', y) \<in> set (snd (Delay_loop fb dt (fst (Delay_frame fb dt s x)) ins))"
    then show ?thesis by (rule Cons.IH [OF inv1])
  qed
qed

lemma Delay_main_length: "length (Delay_main fb f ins) = length ins"
  by (simp add: Delay_main_def Delay_loop_length)

lemma Delay_main_first_out_zero: "map snd (Delay_main fb f [x]) = [0]"
  by (simp add: Delay_main_def Delay_frame_def Delay_init_def Let_def Delay_readIdx_def wrap_to_def)

lemma delayTime_192000: "delayTime 192000 = 84906"
  by (simp add: delayTime_nonneg_eq)

lemma zero_buffer_iff: "zero_buffer s \<longleftrightarrow> (\<forall>x \<in> set (buffer s). x = 0)"
  by (simp add: zero_buffer_def list_all_iff)

lemma Delay_frame_zero:
  assumes "Delay_inv s" "zero_buffer s"
  shows "snd (Delay_frame fb dt s 0) = 0 \<and> zero_buffer (fst (Delay_frame fb dt s 0))"
proof -
  have "Delay_readIdx dt s < length (buffer s)"
    using assms(1) by (simp add: Delay_inv_def Delay_readIdx_less)
  then have out: "buffer s ! Delay_readIdx dt s = 0"
    using assms(2) by (simp add: zero_buffer_iff)
  have "set ((buffer s)[bufferIdx s := 0]) \<subseteq> insert 0 (set (buffer s))"
    by (rule set_update_subset_insert)
  then show ?thesis
    using out assms(2) by (auto simp add: Delay_frame_def Let_def zero_buffer_iff)
qed

lemma Delay_loop_zero_prefix:
  "Delay_inv s \<Longrightarrow> zero_buffer s \<Longrightarrow> t < length ins \<Longrightarrow> \<forall>i<t. ins ! i = 0
     \<Longrightarrow> snd (snd (Delay_loop fb dt s ins) ! t) = 0"
proof (induction ins arbitrary: s t)
  case Nil
  then show ?case by simp
next
  case (Cons x ins)
  show ?case
  proof (cases t)
    case 0
    have "Delay_readIdx dt s < length (buffer s)"
      using Cons.prems(1) by (simp add: Delay_inv_def Delay_readIdx_less)
    then have "buffer s ! Delay_readIdx dt s = 0"
      using Cons.prems(2) by (simp add: zero_buffer_iff)
    then show ?thesis
      using 0 by (simp add: split_beta Delay_frame_def Let_def)
  next
    case (Suc t')
    from Cons.prems(4) Suc have x0: "x = 0" by auto
    from Cons.prems(4) Suc have rest: "\<forall>i<t'. ins ! i = 0" by auto
    from Cons.prems(3) Suc have len: "t' < length ins" by simp
    have inv1: "Delay_inv (fst (Delay_frame fb dt s x))"
      using Cons.prems(1) by (rule Delay_frame_inv)
    have z1: "zero_buffer (fst (Delay_frame fb dt s x))"
      using Delay_frame_zero [OF Cons.prems(1) Cons.prems(2)] x0 by simp
    from Cons.IH [OF inv1 z1 len rest] show ?thesis
      using Suc by (simp add: split_beta)
  qed
qed

text \<open>
  C2, as stated: when the computed delay time is at least the capacity of the buffer, or the
  sample rate is not positive, the processor refuses to start rendering. At 192000 the
  delay time is 84906, and at the sample rate 0 it is 0; in both cases \<^verbatim>\<open>Delay.main\<close>
  renders a frame for each input sample, and at 192000 its first read is at the wrapped
  position 3294.
\<close>

theorem Delay_no_refusal_counterexample:
  "44100 \<le> delayTime 192000 \<and> length (Delay_main 0.35 192000 [1, 0]) = 2
     \<and> Delay_readIdx (delayTime 192000) Delay_init = 3294
     \<and> (0::real) \<le> 0 \<and> length (Delay_main 0.35 0 [1, 0]) = 2"
  by (simp add: delayTime_192000 Delay_main_length Delay_readIdx_def Delay_init_def wrap_to_def)

text \<open>
  C2, amended: \<^verbatim>\<open>Delay.main\<close> checks nothing at initialization. At every sample rate, those
  that are not positive and those whose delay time reaches the capacity included, it renders
  one frame for each input sample, and its first read is at the position
  \<open>(- delayTime) mod 44100\<close>, inside the buffer.
\<close>

theorem Delay_always_starts:
  "length (Delay_main feedbackLevel frequency ins) = length ins
     \<and> Delay_readIdx (delayTime frequency) Delay_init = nat ((- delayTime frequency) mod 44100)
     \<and> Delay_readIdx (delayTime frequency) Delay_init < length (buffer Delay_init)"
  by (simp add: Delay_main_length Delay_readIdx_def Delay_init_def wrap_to_def nat_less_iff)

subsection \<open>The Lead: one frame, one quarter note\<close>

lemma Lead_trigger_fixed [simp]:
  "playHead (Lead_trigger trigs s) = playHead s"
  "gate (Lead_trigger trigs s) = gate s"
  "smootherOutm1 (Lead_trigger trigs s) = smootherOutm1 s"
  by (simp_all add: Lead_trigger_def)

lemma Lead_voice_fixed [simp]:
  "playHead (fst (Lead_voice f s)) = playHead s"
  "pitchIdx (fst (Lead_voice f s)) = pitchIdx s"
  "trig (fst (Lead_voice f s)) = trig s"
  "basePitch (fst (Lead_voice f s)) = basePitch s"
  "gate (fst (Lead_voice f s)) = gate s"
  by (simp_all add: Lead_voice_def Let_def split_beta)

lemma Lead_voice_envPhasor:
  "envPhasor (fst (Lead_voice f s)) = envPhasor s + envPhaseIncr f"
  by (simp add: Lead_voice_def Let_def split_beta)

lemma Lead_voice_smoother:
  "smootherOutm1 (fst (Lead_voice f s)) =
     (clamp (envPhasor s + envPhaseIncr f) 0 1 * 0.01) + (smootherOutm1 s * 0.99)"
  by (simp add: Lead_voice_def Let_def split_beta processSmoother_def)

lemma Lead_voice_muted: "gate s = 0 \<Longrightarrow> snd (Lead_voice f s) = 0"
  by (simp add: Lead_voice_def Let_def split_beta)

lemma Lead_frame_fixed [simp]:
  "playHead (fst (Lead_frame trigs f s)) = playHead s"
  "gate (fst (Lead_frame trigs f s)) = gate s"
  by (simp_all add: Lead_frame_def)

lemma Lead_frame_muted: "gate s = 0 \<Longrightarrow> snd (Lead_frame trigs f s) = 0"
  by (simp add: Lead_frame_def Lead_voice_muted)

lemma Lead_frame_smoother:
  "smootherOutm1 (fst (Lead_frame trigs f s)) =
     (clamp (envPhasor (fst (Lead_frame trigs f s))) 0 1 * 0.01) + (smootherOutm1 s * 0.99)"
  by (simp add: Lead_frame_def Lead_voice_smoother Lead_voice_envPhasor)

lemma Lead_frame_envPhasor:
  "envPhasor (fst (Lead_frame trigs f s)) =
     (if trigs ! playHead s > 0 \<and> trig s then 0 else envPhasor s) + envPhaseIncr f"
  by (simp add: Lead_frame_def Lead_voice_envPhasor Lead_trigger_def)

lemma Lead_frame_struck:
  "trigs ! playHead s > 0 \<Longrightarrow> trig s \<Longrightarrow>
     pitchIdx (fst (Lead_frame trigs f s)) = (pitchIdx s + 1) mod 15
     \<and> basePitch (fst (Lead_frame trigs f s)) = at_wrap pitchArray (int (pitchIdx s))
     \<and> trig (fst (Lead_frame trigs f s)) = False"
  by (simp add: Lead_frame_def Lead_trigger_def)

lemma Lead_frame_not_struck:
  "\<not> (trigs ! playHead s > 0 \<and> trig s) \<Longrightarrow>
     pitchIdx (fst (Lead_frame trigs f s)) = pitchIdx s
     \<and> basePitch (fst (Lead_frame trigs f s)) = basePitch s
     \<and> trig (fst (Lead_frame trigs f s)) = trig s"
  by (auto simp add: Lead_frame_def Lead_trigger_def)

lemma Lead_note_length: "length (snd (Lead_note trigs f n s)) = n"
  by (induction n arbitrary: s) (simp_all add: split_beta)

lemma Lead_note_fixed:
  "playHead (fst (Lead_note trigs f n s)) = playHead s \<and> gate (fst (Lead_note trigs f n s)) = gate s"
  by (induction n arbitrary: s) (simp_all add: split_beta)

lemma Lead_note_frames_fixed:
  "fr \<in> set (snd (Lead_note trigs f n s)) \<Longrightarrow> playHead (fst fr) = playHead s \<and> gate (fst fr) = gate s"
proof (induction n arbitrary: s)
  case 0
  then show ?case by simp
next
  case (Suc n)
  from Suc.prems
  have "fr = Lead_frame trigs f s \<or> fr \<in> set (snd (Lead_note trigs f n (fst (Lead_frame trigs f s))))"
    by (simp add: split_beta)
  then show ?case
  proof
    assume "fr = Lead_frame trigs f s"
    then show ?thesis by simp
  next
    assume "fr \<in> set (snd (Lead_note trigs f n (fst (Lead_frame trigs f s))))"
    from Suc.IH [OF this] show ?thesis by simp
  qed
qed

lemma Lead_note_frames_muted:
  "gate s = 0 \<Longrightarrow> fr \<in> set (snd (Lead_note trigs f n s)) \<Longrightarrow> snd fr = 0"
proof (induction n arbitrary: s)
  case 0
  then show ?case by simp
next
  case (Suc n)
  from Suc.prems(2)
  have "fr = Lead_frame trigs f s \<or> fr \<in> set (snd (Lead_note trigs f n (fst (Lead_frame trigs f s))))"
    by (simp add: split_beta)
  then show ?case
  proof
    assume "fr = Lead_frame trigs f s"
    then show ?thesis using Suc.prems(1) by (simp add: Lead_frame_muted)
  next
    assume mem: "fr \<in> set (snd (Lead_note trigs f n (fst (Lead_frame trigs f s))))"
    have "gate (fst (Lead_frame trigs f s)) = 0" using Suc.prems(1) by simp
    from Suc.IH [OF this mem] show ?thesis .
  qed
qed

text \<open>A run of frames none of which restrikes.\<close>

lemma Lead_note_not_struck:
  "\<not> (trigs ! playHead s > 0 \<and> trig s) \<Longrightarrow>
     pitchIdx (fst (Lead_note trigs f n s)) = pitchIdx s
     \<and> basePitch (fst (Lead_note trigs f n s)) = basePitch s
     \<and> trig (fst (Lead_note trigs f n s)) = trig s
     \<and> envPhasor (fst (Lead_note trigs f n s)) = envPhasor s + real n * envPhaseIncr f"
proof (induction n arbitrary: s)
  case 0
  then show ?case by simp
next
  case (Suc n)
  let ?s1 = "fst (Lead_frame trigs f s)"
  have keep: "pitchIdx ?s1 = pitchIdx s \<and> basePitch ?s1 = basePitch s \<and> trig ?s1 = trig s"
    using Suc.prems by (rule Lead_frame_not_struck)
  have env: "envPhasor ?s1 = envPhasor s + envPhaseIncr f"
    using Suc.prems by (auto simp add: Lead_frame_envPhasor)
  have "\<not> (trigs ! playHead ?s1 > 0 \<and> trig ?s1)"
    using Suc.prems keep by simp
  from Suc.IH [OF this] show ?case
    using keep env by (simp add: split_beta algebra_simps)
qed

text \<open>A run of frames that starts armed on a positive cell: the first frame restrikes.\<close>

lemma Lead_note_struck:
  assumes "trigs ! playHead s > 0" "trig s" "0 < n"
  shows "pitchIdx (fst (Lead_note trigs f n s)) = (pitchIdx s + 1) mod 15
     \<and> basePitch (fst (Lead_note trigs f n s)) = at_wrap pitchArray (int (pitchIdx s))
     \<and> trig (fst (Lead_note trigs f n s)) = False
     \<and> envPhasor (fst (Lead_note trigs f n s)) = real n * envPhaseIncr f"
proof -
  from assms(3) obtain m where n: "n = Suc m" by (cases n) auto
  let ?s1 = "fst (Lead_frame trigs f s)"
  have struck: "pitchIdx ?s1 = (pitchIdx s + 1) mod 15
      \<and> basePitch ?s1 = at_wrap pitchArray (int (pitchIdx s)) \<and> trig ?s1 = False"
    using assms(1,2) by (rule Lead_frame_struck)
  have env: "envPhasor ?s1 = envPhaseIncr f"
    using assms(1,2) by (simp add: Lead_frame_envPhasor)
  have "\<not> (trigs ! playHead ?s1 > 0 \<and> trig ?s1)"
    using struck by simp
  from Lead_note_not_struck [OF this, of f m] show ?thesis
    using struck env n by (simp add: split_beta algebra_simps)
qed

lemma Lead_step_end_fields [simp]:
  "playHead (Lead_step_end s) = (playHead s + 1) mod 256"
  "trig (Lead_step_end s) = True"
  "gate (Lead_step_end s) = (if (playHead s + 1) mod 256 = 0 then 1 else gate s)"
  "pitchIdx (Lead_step_end s) = pitchIdx s"
  "basePitch (Lead_step_end s) = basePitch s"
  "envPhasor (Lead_step_end s) = envPhasor s"
  "smootherOutm1 (Lead_step_end s) = smootherOutm1 s"
  by (simp_all add: Lead_step_end_def Let_def)

subsection \<open>The Lead: the outer loop\<close>

lemma Lead_step_length: "length (snd (Lead_step trigs f s)) = nat (samplesPerQuarterNote f)"
  by (simp add: Lead_step_def Let_def split_beta Lead_note_length)

lemma Lead_step_frames:
  "snd (Lead_step trigs f s) = snd (Lead_note trigs f (nat (samplesPerQuarterNote f)) s)"
  by (simp add: Lead_step_def Let_def split_beta)

lemma Lead_step_state:
  "fst (Lead_step trigs f s) = Lead_step_end (fst (Lead_note trigs f (nat (samplesPerQuarterNote f)) s))"
  by (simp add: Lead_step_def Let_def split_beta)

lemma Lead_step_fixed [simp]:
  "playHead (fst (Lead_step trigs f s)) = (playHead s + 1) mod 256"
  "trig (fst (Lead_step trigs f s)) = True"
  "gate (fst (Lead_step trigs f s)) = (if (playHead s + 1) mod 256 = 0 then 1 else gate s)"
  by (simp_all add: Lead_step_state Lead_note_fixed)

lemma Lead_step_frames_fixed:
  "fr \<in> set (snd (Lead_step trigs f s)) \<Longrightarrow> playHead (fst fr) = playHead s \<and> gate (fst fr) = gate s"
  by (simp add: Lead_step_frames Lead_note_frames_fixed)

lemma Lead_step_frames_muted:
  "gate s = 0 \<Longrightarrow> fr \<in> set (snd (Lead_step trigs f s)) \<Longrightarrow> snd fr = 0"
  by (simp add: Lead_step_frames Lead_note_frames_muted)

text \<open>What one quarter note does to the sequencer, started armed.\<close>

lemma Lead_step_struck:
  assumes "trig s" "0 < samplesPerQuarterNote f" "trigs ! playHead s > 0"
  shows "pitchIdx (fst (Lead_step trigs f s)) = (pitchIdx s + 1) mod 15
     \<and> basePitch (fst (Lead_step trigs f s)) = at_wrap pitchArray (int (pitchIdx s))
     \<and> envPhasor (fst (Lead_step trigs f s))
         = real (nat (samplesPerQuarterNote f)) * envPhaseIncr f"
proof -
  have "0 < nat (samplesPerQuarterNote f)" using assms(2) by simp
  from Lead_note_struck [OF assms(3) assms(1) this, of f] show ?thesis
    by (simp add: Lead_step_state)
qed

lemma Lead_step_not_struck:
  assumes "\<not> trigs ! playHead s > 0"
  shows "pitchIdx (fst (Lead_step trigs f s)) = pitchIdx s
     \<and> basePitch (fst (Lead_step trigs f s)) = basePitch s
     \<and> envPhasor (fst (Lead_step trigs f s))
         = envPhasor s + real (nat (samplesPerQuarterNote f)) * envPhaseIncr f"
proof -
  have "\<not> (trigs ! playHead s > 0 \<and> trig s)" using assms by simp
  from Lead_note_not_struck [OF this, of f "nat (samplesPerQuarterNote f)"] show ?thesis
    by (simp add: Lead_step_state)
qed

lemma Lead_main_Suc:
  "fst (Lead_main trigs f (Suc k) s) = fst (Lead_step trigs f (fst (Lead_main trigs f k s)))"
  "snd (Lead_main trigs f (Suc k) s)
     = snd (Lead_main trigs f k s) @ snd (Lead_step trigs f (fst (Lead_main trigs f k s)))"
  by (simp_all add: split_beta)

lemma Lead_main_length:
  "length (snd (Lead_main trigs f k s)) = k * nat (samplesPerQuarterNote f)"
  by (induction k) (simp_all add: Lead_main_Suc Lead_step_length del: Lead_main.simps(2))

lemma Lead_main_playHead:
  "playHead s < 256 \<Longrightarrow> playHead (fst (Lead_main trigs f k s)) = (playHead s + k) mod 256"
proof (induction k)
  case 0
  then show ?case by simp
next
  case (Suc k)
  then show ?case
    by (simp add: Lead_main_Suc mod_Suc_eq del: Lead_main.simps(2))
qed

lemma Lead_main_trig: "trig s \<Longrightarrow> trig (fst (Lead_main trigs f k s))"
  by (cases k) (simp_all add: Lead_main_Suc del: Lead_main.simps(2))

lemma Lead_main_add:
  "fst (Lead_main trigs f (a + b) s) = fst (Lead_main trigs f b (fst (Lead_main trigs f a s)))
   \<and> snd (Lead_main trigs f (a + b) s)
       = snd (Lead_main trigs f a s) @ snd (Lead_main trigs f b (fst (Lead_main trigs f a s)))"
proof (induction b)
  case 0
  show ?case by simp
next
  case (Suc b)
  have "a + Suc b = Suc (a + b)" by simp
  then show ?case
    using Suc.IH by (simp add: Lead_main_Suc del: Lead_main.simps(2))
qed

text \<open>The muted pass: while the playhead has not wrapped, the gate is 0 and every sample is 0.\<close>

lemma Lead_main_muted:
  "gate s = 0 \<Longrightarrow> playHead s < 256 \<Longrightarrow> playHead s + k \<le> 256 \<Longrightarrow>
     gate (fst (Lead_main trigs f k s)) = (if playHead s + k = 256 then 1 else 0)
     \<and> (\<forall>fr \<in> set (snd (Lead_main trigs f k s)). gate (fst fr) = 0 \<and> snd fr = 0)"
proof (induction k)
  case 0
  then show ?case by simp
next
  case (Suc k)
  let ?s1 = "fst (Lead_main trigs f k s)"
  from Suc.prems have less: "playHead s + k < 256" by simp
  with Suc have IH: "gate ?s1 = 0
      \<and> (\<forall>fr \<in> set (snd (Lead_main trigs f k s)). gate (fst fr) = 0 \<and> snd fr = 0)"
    by simp
  have ph: "playHead ?s1 = playHead s + k"
    using Suc.prems(2) less by (simp add: Lead_main_playHead)
  have frames: "\<forall>fr \<in> set (snd (Lead_step trigs f ?s1)). gate (fst fr) = 0 \<and> snd fr = 0"
    using IH Lead_step_frames_fixed [of _ trigs f ?s1] Lead_step_frames_muted [of ?s1 _ trigs f]
    by auto
  have "(playHead s + k + 1) mod 256 = 0 \<longleftrightarrow> playHead s + Suc k = 256"
    using Suc.prems(3) by (cases "playHead s + Suc k = 256") simp_all
  then have "gate (fst (Lead_step trigs f ?s1)) = (if playHead s + Suc k = 256 then 1 else 0)"
    using IH ph by simp
  then show ?case
    using IH frames by (auto simp add: Lead_main_Suc simp del: Lead_main.simps(2))
qed

text \<open>Once the gate is 1 it stays 1.\<close>

lemma Lead_main_open:
  "gate s = 1 \<Longrightarrow>
     gate (fst (Lead_main trigs f k s)) = 1
     \<and> (\<forall>fr \<in> set (snd (Lead_main trigs f k s)). gate (fst fr) = 1)"
proof (induction k)
  case 0
  then show ?case by simp
next
  case (Suc k)
  let ?s1 = "fst (Lead_main trigs f k s)"
  from Suc have IH: "gate ?s1 = 1
      \<and> (\<forall>fr \<in> set (snd (Lead_main trigs f k s)). gate (fst fr) = 1)"
    by simp
  have frames: "\<forall>fr \<in> set (snd (Lead_step trigs f ?s1)). gate (fst fr) = 1"
    using IH Lead_step_frames_fixed [of _ trigs f ?s1] by auto
  have "gate (fst (Lead_step trigs f ?s1)) = 1"
    using IH by simp
  then show ?case
    using IH frames by (auto simp add: Lead_main_Suc simp del: Lead_main.simps(2))
qed

lemma Lead_init_fields [simp]:
  "playHead Lead_init = 0" "pitchIdx Lead_init = 0" "trig Lead_init = True"
  "envPhasor Lead_init = 0" "smootherOutm1 Lead_init = 0" "basePitch Lead_init = 0"
  "gate Lead_init = 0"
  by (simp_all add: Lead_init_def)

text \<open>The frames of a render from the initial state, by tick.\<close>

lemma Lead_main_tick:
  assumes "i < length (snd (Lead_main trigs f k Lead_init))"
  shows "gate (fst (snd (Lead_main trigs f k Lead_init) ! i))
           = (if i < 256 * nat (samplesPerQuarterNote f) then 0 else 1)
     \<and> (i < 256 * nat (samplesPerQuarterNote f) \<longrightarrow> snd (snd (Lead_main trigs f k Lead_init) ! i) = 0)"
proof (cases "k \<le> 256")
  case True
  let ?frames = "snd (Lead_main trigs f k Lead_init)"
  have "\<forall>fr \<in> set ?frames. gate (fst fr) = 0 \<and> snd fr = 0"
    using Lead_main_muted [of Lead_init k trigs f] True by simp
  moreover have "?frames ! i \<in> set ?frames" using assms by simp
  moreover have "i < 256 * nat (samplesPerQuarterNote f)"
  proof -
    have "i < k * nat (samplesPerQuarterNote f)" using assms by (simp add: Lead_main_length)
    also have "\<dots> \<le> 256 * nat (samplesPerQuarterNote f)" using True by simp
    finally show ?thesis .
  qed
  ultimately show ?thesis by simp
next
  case False
  then obtain b where k: "k = 256 + b" by (metis le_add_diff_inverse nat_le_linear)
  let ?s = "fst (Lead_main trigs f 256 Lead_init)"
  let ?f1 = "snd (Lead_main trigs f 256 Lead_init)"
  let ?f2 = "snd (Lead_main trigs f b ?s)"
  have split: "snd (Lead_main trigs f k Lead_init) = ?f1 @ ?f2"
    using Lead_main_add [of trigs f 256 b Lead_init] k by simp
  have len1: "length ?f1 = 256 * nat (samplesPerQuarterNote f)"
    by (simp add: Lead_main_length)
  have muted: "gate ?s = 1 \<and> (\<forall>fr \<in> set ?f1. gate (fst fr) = 0 \<and> snd fr = 0)"
    using Lead_main_muted [of Lead_init 256 trigs f] by simp
  then have opened: "\<forall>fr \<in> set ?f2. gate (fst fr) = 1"
    using Lead_main_open [of ?s trigs f b] by simp
  show ?thesis
  proof (cases "i < 256 * nat (samplesPerQuarterNote f)")
    case True
    then have "(?f1 @ ?f2) ! i = ?f1 ! i" using len1 by (simp add: nth_append)
    moreover have "?f1 ! i \<in> set ?f1" using True len1 by simp
    ultimately show ?thesis using muted True split by simp
  next
    case False
    then have nth: "(?f1 @ ?f2) ! i = ?f2 ! (i - length ?f1)" using len1 by (simp add: nth_append)
    have "i - length ?f1 < length ?f2" using assms split False len1 by simp
    then have "?f2 ! (i - length ?f1) \<in> set ?f2" by simp
    then show ?thesis using opened False split nth by simp
  qed
qed

subsection \<open>The gate of the Lead\<close>

lemma samplesPerQuarterNote_44100: "samplesPerQuarterNote 44100 = 4900"
  by (simp add: samplesPerQuarterNote_def to_int_def clock_def)


lemma Lead_main_gate:
  "gate (fst (Lead_main trigs f k Lead_init)) = (if k < 256 then 0 else 1)"
proof (cases "k \<le> 256")
  case True
  then show ?thesis using Lead_main_muted [of Lead_init k trigs f] by auto
next
  case False
  then obtain b where k: "k = 256 + b" by (metis le_add_diff_inverse nat_le_linear)
  have "gate (fst (Lead_main trigs f 256 Lead_init)) = 1"
    using Lead_main_muted [of Lead_init 256 trigs f] by simp
  then have "gate (fst (Lead_main trigs f b (fst (Lead_main trigs f 256 Lead_init)))) = 1"
    using Lead_main_open by blast
  then show ?thesis using k Lead_main_add [of trigs f 256 b Lead_init] by simp
qed

text \<open>
  C5: in a render of the Lead from its initial state, the frame of tick \<open>i\<close> (counted from 0)
  carries the gate 0 when \<open>i\<close> lies before the first wrap of the 256-step playhead, that is
  before tick \<open>256 \<times> samplesPerQuarterNote\<close>, and the gate 1 from that tick on; every sample
  of a frame before the wrap is exactly 0; and the gate held after \<open>k\<close> quarter notes is 0 for
  \<open>k < 256\<close> and 1 from \<open>k = 256\<close> on. A frame does not change the gate, so the gate of its
  state is the one its sample was multiplied by.
\<close>

theorem Lead_gate_opens_at_first_wrap:
  "i < length (snd (Lead_main triggerArray f k Lead_init)) \<Longrightarrow>
     gate (fst (snd (Lead_main triggerArray f k Lead_init) ! i))
         = (if i < 256 * nat (samplesPerQuarterNote f) then 0 else 1)
     \<and> (i < 256 * nat (samplesPerQuarterNote f)
          \<longrightarrow> snd (snd (Lead_main triggerArray f k Lead_init) ! i) = 0)
     \<and> gate (fst (Lead_main triggerArray f k Lead_init)) = (if k < 256 then 0 else 1)"
  using Lead_main_tick [of i triggerArray f k] Lead_main_gate [of triggerArray f k]
  by simp

theorem Lead_gate_opens_at_first_wrap_witness:
  "gate (fst (snd (Lead_main triggerArray 44100 300 Lead_init) ! 1254399)) = 0
     \<and> snd (snd (Lead_main triggerArray 44100 300 Lead_init) ! 1254399) = 0
     \<and> gate (fst (snd (Lead_main triggerArray 44100 300 Lead_init) ! 1254400)) = 1
     \<and> gate (fst (Lead_main triggerArray 44100 300 Lead_init)) = 1"
proof -
  have len: "length (snd (Lead_main triggerArray 44100 300 Lead_init)) = 1470000"
    by (simp add: Lead_main_length samplesPerQuarterNote_44100)
  have a: "(1254399::nat) < length (snd (Lead_main triggerArray 44100 300 Lead_init))"
    by (simp only: len)
  have b: "(1254400::nat) < length (snd (Lead_main triggerArray 44100 300 Lead_init))"
    by (simp only: len)
  show ?thesis
    using Lead_gate_opens_at_first_wrap [OF a] Lead_gate_opens_at_first_wrap [OF b]
    by (simp add: samplesPerQuarterNote_44100)
qed

subsection \<open>The trigger pattern and the armed flag\<close>

lemma triggerArray_length: "length triggerArray = 256"
  by (simp add: triggerArray_def)

lemma triggerArray_no_adjacent:
  "list_all (\<lambda>i. \<not> (triggerArray ! i > 0 \<and> triggerArray ! ((i + 1) mod 256) > 0)) [0..<256]"
  by code_simp

lemma pitchArray_first: "at_wrap pitchArray 0 = 69" "at_wrap pitchArray 1 = 67"
  by (simp_all add: at_wrap_def pitchArray_def wrap_to_def)

lemma Lead_main_playHead_init:
  "playHead (fst (Lead_main trigs f k Lead_init)) = k mod 256"
  using Lead_main_playHead [of Lead_init trigs f k] by simp

lemma Lead_main_trig_init: "trig (fst (Lead_main trigs f k Lead_init))"
  by (rule Lead_main_trig) simp

text \<open>
  C3, amended: the armed flag \<open>trig\<close> is set back to true at the end of every quarter note,
  whatever the trigger cell, so every quarter note of a render starts armed. Across any
  trigger pattern of 256 cells, a quarter note whose cell is positive restrikes a note once,
  on its first frame (the pitch index advances by one, the base pitch is read, the envelope
  phase at the end of the quarter note counts all its frames), also when the cell before
  it is positive; a quarter note whose cell is not positive restrikes nothing. In the
  built-in pattern no positive cell is followed by a positive cell, cyclically.
\<close>

theorem Lead_restruck_on_every_positive_cell:
  assumes "length trigs = 256" and "0 < samplesPerQuarterNote f"
  shows "trig (fst (Lead_step trigs f s))
     \<and> trig (fst (Lead_main trigs f k Lead_init))
     \<and> (trigs ! (k mod 256) > 0 \<longrightarrow>
          pitchIdx (fst (Lead_main trigs f (Suc k) Lead_init))
            = (pitchIdx (fst (Lead_main trigs f k Lead_init)) + 1) mod 15
          \<and> basePitch (fst (Lead_main trigs f (Suc k) Lead_init))
            = at_wrap pitchArray (int (pitchIdx (fst (Lead_main trigs f k Lead_init))))
          \<and> envPhasor (fst (Lead_main trigs f (Suc k) Lead_init))
            = real (nat (samplesPerQuarterNote f)) * envPhaseIncr f)
     \<and> (\<not> trigs ! (k mod 256) > 0 \<longrightarrow>
          pitchIdx (fst (Lead_main trigs f (Suc k) Lead_init))
            = pitchIdx (fst (Lead_main trigs f k Lead_init))
          \<and> basePitch (fst (Lead_main trigs f (Suc k) Lead_init))
            = basePitch (fst (Lead_main trigs f k Lead_init))
          \<and> envPhasor (fst (Lead_main trigs f (Suc k) Lead_init))
            = envPhasor (fst (Lead_main trigs f k Lead_init))
              + real (nat (samplesPerQuarterNote f)) * envPhaseIncr f)
     \<and> list_all (\<lambda>i. \<not> (triggerArray ! i > 0 \<and> triggerArray ! ((i + 1) mod 256) > 0)) [0..<256]"
proof -
  let ?s = "fst (Lead_main trigs f k Lead_init)"
  have armed: "trig ?s" by (rule Lead_main_trig_init)
  have ph: "playHead ?s = k mod 256" by (rule Lead_main_playHead_init)
  have next_state: "fst (Lead_main trigs f (Suc k) Lead_init) = fst (Lead_step trigs f ?s)"
    by (rule Lead_main_Suc(1))
  have struck: "trigs ! (k mod 256) > 0 \<Longrightarrow>
      pitchIdx (fst (Lead_step trigs f ?s)) = (pitchIdx ?s + 1) mod 15
      \<and> basePitch (fst (Lead_step trigs f ?s)) = at_wrap pitchArray (int (pitchIdx ?s))
      \<and> envPhasor (fst (Lead_step trigs f ?s)) = real (nat (samplesPerQuarterNote f)) * envPhaseIncr f"
    using Lead_step_struck [OF armed assms(2), of trigs] ph by simp
  have rest: "\<not> trigs ! (k mod 256) > 0 \<Longrightarrow>
      pitchIdx (fst (Lead_step trigs f ?s)) = pitchIdx ?s
      \<and> basePitch (fst (Lead_step trigs f ?s)) = basePitch ?s
      \<and> envPhasor (fst (Lead_step trigs f ?s))
          = envPhasor ?s + real (nat (samplesPerQuarterNote f)) * envPhaseIncr f"
    using Lead_step_not_struck [of trigs ?s f] ph by simp
  show ?thesis
    using armed struck rest triggerArray_no_adjacent
    by (simp only: next_state Lead_step_fixed(2)) blast
qed

theorem Lead_restruck_on_every_positive_cell_witness:
  "length triggerArray = 256 \<and> 0 < samplesPerQuarterNote 44100
     \<and> triggerArray ! (0 mod 256) > 0
     \<and> pitchIdx (fst (Lead_main triggerArray 44100 (Suc 0) Lead_init)) = 1
     \<and> basePitch (fst (Lead_main triggerArray 44100 (Suc 0) Lead_init)) = 69
     \<and> \<not> triggerArray ! (1 mod 256) > 0
     \<and> pitchIdx (fst (Lead_main triggerArray 44100 (Suc 1) Lead_init))
         = pitchIdx (fst (Lead_main triggerArray 44100 1 Lead_init))"
proof -
  have spq: "0 < samplesPerQuarterNote 44100" by (simp add: samplesPerQuarterNote_44100)
  have cell0: "triggerArray ! (0 mod 256) > 0" by (simp add: triggerArray_def)
  have cell1: "\<not> triggerArray ! (1 mod 256) > 0" by (simp add: triggerArray_def)
  have start: "fst (Lead_main triggerArray 44100 0 Lead_init) = Lead_init" by simp
  from Lead_restruck_on_every_positive_cell [OF triggerArray_length spq, of Lead_init 0] cell0
  have "pitchIdx (fst (Lead_main triggerArray 44100 (Suc 0) Lead_init))
          = (pitchIdx (fst (Lead_main triggerArray 44100 0 Lead_init)) + 1) mod 15
        \<and> basePitch (fst (Lead_main triggerArray 44100 (Suc 0) Lead_init))
          = at_wrap pitchArray (int (pitchIdx (fst (Lead_main triggerArray 44100 0 Lead_init))))"
    by blast
  then have first: "pitchIdx (fst (Lead_main triggerArray 44100 (Suc 0) Lead_init)) = 1
        \<and> basePitch (fst (Lead_main triggerArray 44100 (Suc 0) Lead_init)) = 69"
    by (simp only: start Lead_init_fields) (simp add: pitchArray_first)
  from Lead_restruck_on_every_positive_cell [OF triggerArray_length spq, of Lead_init 1] cell1
  have second: "pitchIdx (fst (Lead_main triggerArray 44100 (Suc 1) Lead_init))
         = pitchIdx (fst (Lead_main triggerArray 44100 1 Lead_init))"
    by blast
  show ?thesis using triggerArray_length spq cell0 cell1 first second by blast
qed

lemma pattern11_cells:
  "length (1 # 1 # replicate 254 (0::int)) = 256"
  "(1 # 1 # replicate 254 (0::int)) ! 0 = 1"
  "(1 # 1 # replicate 254 (0::int)) ! 1 = 1"
  "(1 # 1 # replicate 254 (0::int)) ! Suc 0 = 1"
  by simp_all

lemma Lead_two_ones:
  "trig (fst (Lead_main (1 # 1 # replicate 254 (0::int)) 44100 1 Lead_init))
   \<and> playHead (fst (Lead_main (1 # 1 # replicate 254 (0::int)) 44100 1 Lead_init)) = 1
   \<and> pitchIdx (fst (Lead_main (1 # 1 # replicate 254 (0::int)) 44100 1 Lead_init)) = 1
   \<and> basePitch (fst (Lead_main (1 # 1 # replicate 254 (0::int)) 44100 1 Lead_init)) = 69
   \<and> pitchIdx (fst (Lead_main (1 # 1 # replicate 254 (0::int)) 44100 2 Lead_init)) = 2
   \<and> basePitch (fst (Lead_main (1 # 1 # replicate 254 (0::int)) 44100 2 Lead_init)) = 67"
proof -
  let ?s1 = "fst (Lead_step (1 # 1 # replicate 254 (0::int)) 44100 Lead_init)"
  let ?s2 = "fst (Lead_step (1 # 1 # replicate 254 (0::int)) 44100 ?s1)"
  have spq: "0 < samplesPerQuarterNote 44100" by (simp add: samplesPerQuarterNote_44100)
  have m1: "fst (Lead_main (1 # 1 # replicate 254 (0::int)) 44100 1 Lead_init) = ?s1"
    by (simp add: split_beta)
  have m2: "fst (Lead_main (1 # 1 # replicate 254 (0::int)) 44100 2 Lead_init) = ?s2"
    by (simp add: split_beta numeral_2_eq_2)
  have c0: "(1 # 1 # replicate 254 (0::int)) ! playHead Lead_init > 0" by (simp add: pattern11_cells)
  have a1: "trig ?s1" "playHead ?s1 = 1" by simp_all
  have p1: "pitchIdx ?s1 = 1 \<and> basePitch ?s1 = 69"
    using Lead_step_struck [OF _ spq c0] by (simp add: pitchArray_first)
  have c1: "(1 # 1 # replicate 254 (0::int)) ! playHead ?s1 > 0" by (simp add: pattern11_cells)
  have p2: "pitchIdx ?s2 = 2 \<and> basePitch ?s2 = 67"
    using Lead_step_struck [OF a1(1) spq c1] p1 by (simp add: pitchArray_first)
  show ?thesis using a1 p1 p2 by (simp only: m1 m2)
qed

text \<open>
  C3, as stated: the armed flag is set back to true only when the current cell is 0, so that
  across any trigger pattern a 1 cell that follows a 1 cell does not restrike. On the pattern
  whose cells 0 and 1 are 1 and whose other cells are 0, at 44100 Hz, the flag is true again
  after the first quarter note, whose cell and whose successor's cell are both 1, and the
  second quarter note strikes a second note: the pitch index goes from 1 to 2 and the base
  pitch from 69 to 67.
\<close>

theorem Lead_second_one_restrikes_counterexample:
  "length (1 # 1 # replicate 254 (0::int)) = 256
     \<and> (1 # 1 # replicate 254 (0::int)) ! 0 = 1 \<and> (1 # 1 # replicate 254 (0::int)) ! 1 = 1
     \<and> trig (fst (Lead_main (1 # 1 # replicate 254 (0::int)) 44100 1 Lead_init))
     \<and> pitchIdx (fst (Lead_main (1 # 1 # replicate 254 (0::int)) 44100 1 Lead_init)) = 1
     \<and> basePitch (fst (Lead_main (1 # 1 # replicate 254 (0::int)) 44100 1 Lead_init)) = 69
     \<and> pitchIdx (fst (Lead_main (1 # 1 # replicate 254 (0::int)) 44100 2 Lead_init)) = 2
     \<and> basePitch (fst (Lead_main (1 # 1 # replicate 254 (0::int)) 44100 2 Lead_init)) = 67"
  using Lead_two_ones by (simp only: pattern11_cells)

subsection \<open>The envelope phase of the Lead\<close>


lemma clamp_unit_pos: "0 < v \<Longrightarrow> 0 < clamp v 0 1"
  by (simp add: clamp_def)




lemma envPhaseIncr_pos: "0 < f \<Longrightarrow> 0 < envPhaseIncr f"
  by (simp add: envPhaseIncr_def period_def)






subsection \<open>The smoother of the Lead\<close>

lemma samplesPerQuarterNote_pos: "9 \<le> f \<Longrightarrow> 0 < samplesPerQuarterNote f"
proof -
  assume "9 \<le> f"
  then have "1 \<le> f / 9" by simp
  then have "1 \<le> \<lfloor>f / 9\<rfloor>" by linarith
  then show ?thesis
    using \<open>9 \<le> f\<close> by (simp add: samplesPerQuarterNote_def to_int_def clock_def)
qed

lemma Lead_frame_pos:
  assumes "0 < f" "0 \<le> envPhasor s" "0 \<le> smootherOutm1 s"
  shows "0 < envPhasor (fst (Lead_frame trigs f s)) \<and> 0 < smootherOutm1 (fst (Lead_frame trigs f s))"
proof -
  let ?e = "envPhasor (fst (Lead_frame trigs f s))"
  have e: "0 < ?e"
    using assms(2) envPhaseIncr_pos [OF assms(1)] by (simp add: Lead_frame_envPhasor)
  then have "0 < clamp ?e 0 1" by (rule clamp_unit_pos)
  then have "0 < (clamp ?e 0 1 * 0.01) + (smootherOutm1 s * 0.99)"
    using assms(3) by (simp add: add_pos_nonneg)
  then show ?thesis using e by (simp add: Lead_frame_smoother)
qed

lemma Lead_note_pos_keeps:
  "0 < f \<Longrightarrow> 0 < envPhasor s \<and> 0 < smootherOutm1 s \<Longrightarrow>
     0 < envPhasor (fst (Lead_note trigs f n s)) \<and> 0 < smootherOutm1 (fst (Lead_note trigs f n s))"
proof (induction n arbitrary: s)
  case 0
  then show ?case by simp
next
  case (Suc n)
  have "0 < envPhasor (fst (Lead_frame trigs f s)) \<and> 0 < smootherOutm1 (fst (Lead_frame trigs f s))"
    using Suc.prems by (simp add: Lead_frame_pos)
  from Suc.IH [OF Suc.prems(1) this] show ?case by (simp add: split_beta)
qed

lemma Lead_note_pos:
  assumes "0 < f" "0 \<le> envPhasor s" "0 \<le> smootherOutm1 s" "0 < n"
  shows "0 < envPhasor (fst (Lead_note trigs f n s)) \<and> 0 < smootherOutm1 (fst (Lead_note trigs f n s))"
proof -
  from assms(4) obtain m where n: "n = Suc m" by (cases n) auto
  have "0 < envPhasor (fst (Lead_frame trigs f s)) \<and> 0 < smootherOutm1 (fst (Lead_frame trigs f s))"
    using assms(1-3) by (rule Lead_frame_pos)
  from Lead_note_pos_keeps [OF assms(1) this, of trigs m] show ?thesis
    using n by (simp add: split_beta)
qed

lemma Lead_note_nonneg:
  assumes "0 < f" "0 \<le> envPhasor s" "0 \<le> smootherOutm1 s"
  shows "0 \<le> envPhasor (fst (Lead_note trigs f n s)) \<and> 0 \<le> smootherOutm1 (fst (Lead_note trigs f n s))"
proof (cases n)
  case 0
  then show ?thesis using assms by simp
next
  case (Suc m)
  then have "0 < n" by simp
  from Lead_note_pos [OF assms this, of trigs] show ?thesis by simp
qed

lemma Lead_main_nonneg:
  "0 < f \<Longrightarrow> 0 \<le> envPhasor s \<Longrightarrow> 0 \<le> smootherOutm1 s \<Longrightarrow>
     0 \<le> envPhasor (fst (Lead_main trigs f k s)) \<and> 0 \<le> smootherOutm1 (fst (Lead_main trigs f k s))"
proof (induction k)
  case 0
  then show ?case by simp
next
  case (Suc k)
  then have IH: "0 \<le> envPhasor (fst (Lead_main trigs f k s))"
    "0 \<le> smootherOutm1 (fst (Lead_main trigs f k s))" by simp_all
  from Lead_note_nonneg [OF Suc.prems(1) IH, of trigs "nat (samplesPerQuarterNote f)"]
  show ?case
    by (simp add: Lead_main_Suc Lead_step_state del: Lead_main.simps(2))
qed

lemma Lead_note_last:
  "0 < n \<Longrightarrow> fst (last (snd (Lead_note trigs f n s))) = fst (Lead_note trigs f n s)"
proof (induction n arbitrary: s)
  case 0
  then show ?case by simp
next
  case (Suc n)
  show ?case
  proof (cases n)
    case 0
    then show ?thesis by (simp add: split_beta)
  next
    case (Suc m)
    then have pos: "0 < n" by simp
    have "snd (Lead_note trigs f n (fst (Lead_frame trigs f s))) \<noteq> []"
      using Lead_note_length [of trigs f n "fst (Lead_frame trigs f s)"] pos by auto
    then show ?thesis
      using Suc.IH [OF pos, of "fst (Lead_frame trigs f s)"] by (simp add: split_beta)
  qed
qed

text \<open>The state in which the gate opens.\<close>

lemma Lead_gate_opening:
  assumes "9 \<le> f"
  shows "gate (fst (Lead_main trigs f 255 Lead_init)) = 0
     \<and> gate (fst (Lead_main trigs f 256 Lead_init)) = 1
     \<and> smootherOutm1 (fst (Lead_main trigs f 256 Lead_init))
         = smootherOutm1 (fst (last (snd (Lead_main trigs f 256 Lead_init))))
     \<and> 0 < smootherOutm1 (fst (Lead_main trigs f 256 Lead_init))"
proof -
  let ?q = "nat (samplesPerQuarterNote f)"
  let ?s = "fst (Lead_main trigs f 255 Lead_init)"
  have f: "0 < f" using assms by simp
  have q: "0 < ?q" using samplesPerQuarterNote_pos [OF assms] by simp
  have k: "(256::nat) = Suc 255" by simp
  have state: "fst (Lead_main trigs f 256 Lead_init) = Lead_step_end (fst (Lead_note trigs f ?q ?s))"
    by (simp only: k Lead_main_Suc(1) Lead_step_state)
  have frames: "snd (Lead_main trigs f 256 Lead_init)
      = snd (Lead_main trigs f 255 Lead_init) @ snd (Lead_note trigs f ?q ?s)"
    by (simp only: k Lead_main_Suc(2) Lead_step_frames)
  have nonempty: "snd (Lead_note trigs f ?q ?s) \<noteq> []"
    using Lead_note_length [of trigs f ?q ?s] q by auto
  have last_frame: "fst (last (snd (Lead_main trigs f 256 Lead_init))) = fst (Lead_note trigs f ?q ?s)"
    using nonempty Lead_note_last [OF q, of trigs f ?s] by (simp add: frames)
  have nn: "0 \<le> envPhasor ?s \<and> 0 \<le> smootherOutm1 ?s"
    using Lead_main_nonneg [OF f, of Lead_init trigs 255] by simp
  then have pos: "0 < smootherOutm1 (fst (Lead_note trigs f ?q ?s))"
    using Lead_note_pos [OF f _ _ q, of ?s trigs] by simp
  have g: "gate (fst (Lead_main trigs f 255 Lead_init)) = 0
      \<and> gate (fst (Lead_main trigs f 256 Lead_init)) = 1"
    by (simp add: Lead_main_gate)
  have sm: "smootherOutm1 (fst (Lead_main trigs f 256 Lead_init))
      = smootherOutm1 (fst (Lead_note trigs f ?q ?s))"
    by (simp only: state Lead_step_end_fields)
  show ?thesis
    using g pos by (simp only: sm last_frame)
qed

text \<open>
  C10: after every frame, whatever the gate of the state it starts from, the smoother state
  is the smoothing recurrence applied to the state before the frame and the clamped envelope
  phase; the end of a quarter note, where the gate is set, leaves the smoother state as it
  is. So at a sample rate of at least 9 Hz, where a quarter note has at least one sample,
  the gate is 0 after 255 quarter notes and 1 after 256, and the smoother state with which
  the first audible quarter note starts is the one of the last muted frame, a positive
  value and not 0.
\<close>

theorem Lead_smoother_runs_while_muted:
  "smootherOutm1 (fst (Lead_frame trigs f s))
       = (clamp (envPhasor (fst (Lead_frame trigs f s))) 0 1 * 0.01) + (smootherOutm1 s * 0.99)
   \<and> smootherOutm1 (Lead_step_end s) = smootherOutm1 s
   \<and> (9 \<le> f \<longrightarrow>
        gate (fst (Lead_main triggerArray f 255 Lead_init)) = 0
        \<and> gate (fst (Lead_main triggerArray f 256 Lead_init)) = 1
        \<and> smootherOutm1 (fst (Lead_main triggerArray f 256 Lead_init))
            = smootherOutm1 (fst (last (snd (Lead_main triggerArray f 256 Lead_init))))
        \<and> 0 < smootherOutm1 (fst (Lead_main triggerArray f 256 Lead_init)))"
  using Lead_frame_smoother [of trigs f s] Lead_step_end_fields(7) [of s]
    Lead_gate_opening [of f triggerArray]
  by blast

theorem Lead_smoother_runs_while_muted_witness:
  "(9::real) \<le> 44100
   \<and> gate (fst (Lead_main triggerArray 44100 255 Lead_init)) = 0
   \<and> gate (fst (Lead_main triggerArray 44100 256 Lead_init)) = 1
   \<and> 0 < smootherOutm1 (fst (Lead_main triggerArray 44100 256 Lead_init))"
proof -
  have f: "(9::real) \<le> 44100" by simp
  from Lead_smoother_runs_while_muted [of triggerArray 44100 Lead_init] f
  show ?thesis by blast
qed

subsection \<open>The Bass: arpeggio and root note\<close>

lemma Bass_frame_fixed [simp]:
  "rootIdx (fst (fst (Bass_frame i1 i2 il spq se))) = rootIdx (fst se)"
  "playHead_b (fst (fst (Bass_frame i1 i2 il spq se))) = playHead_b (fst se)"
  by (simp_all add: Bass_frame_def Let_def split_beta)

lemma Bass_note_fixed:
  "rootIdx (fst (fst (Bass_note i1 i2 il spq n se))) = rootIdx (fst se)
   \<and> playHead_b (fst (fst (Bass_note i1 i2 il spq n se))) = playHead_b (fst se)"
  by (induction n arbitrary: se) (simp_all add: split_beta)

lemma Bass_note_length: "length (snd (Bass_note i1 i2 il spq n se)) = n"
  by (induction n arbitrary: se) (simp_all add: split_beta)

lemma Bass_note_frames_fixed:
  "fr \<in> set (snd (Bass_note i1 i2 il spq n se)) \<Longrightarrow>
     rootIdx (fst fr) = rootIdx (fst se) \<and> playHead_b (fst fr) = playHead_b (fst se)"
proof (induction n arbitrary: se)
  case 0
  then show ?case by simp
next
  case (Suc n)
  let ?se1 = "fst (Bass_frame i1 i2 il spq se)"
  from Suc.prems
  have "fst fr = fst ?se1 \<or> fr \<in> set (snd (Bass_note i1 i2 il spq n ?se1))"
    by (auto simp add: split_beta)
  then show ?case
  proof
    assume "fst fr = fst ?se1"
    then show ?thesis by simp
  next
    assume "fr \<in> set (snd (Bass_note i1 i2 il spq n ?se1))"
    from Suc.IH [OF this] show ?thesis by simp
  qed
qed

lemma Bass_step_end_fields [simp]:
  "playHead_b (Bass_step_end s) = (playHead_b s + 1) mod 32"
  "rootIdx (Bass_step_end s) = (if (playHead_b s + 1) mod 32 = 0 then (rootIdx s + 1) mod 8 else rootIdx s)"
  by (simp_all add: Bass_step_end_def Let_def)

lemma Bass_step_fields:
  "playHead_b (fst (Bass_step f s)) = (playHead_b s + 1) mod 32"
  "rootIdx (fst (Bass_step f s))
     = (if (playHead_b s + 1) mod 32 = 0 then (rootIdx s + 1) mod 8 else rootIdx s)"
  "fst (snd (Bass_step f s)) = Bass_noteNumber s"
  "length (snd (snd (Bass_step f s))) = nat (samplesPerQuarterNote f)"
  using Bass_note_fixed [of _ _ _ _ _ "(s, 1)"]
  by (simp_all add: Bass_step_def Let_def split_beta Bass_note_length)

lemma Bass_step_frames_fixed:
  "fr \<in> set (snd (snd (Bass_step f s))) \<Longrightarrow>
     rootIdx (fst fr) = rootIdx s \<and> playHead_b (fst fr) = playHead_b s"
  using Bass_note_frames_fixed [of fr _ _ _ _ _ "(s, 1)"]
  by (simp add: Bass_step_def Let_def split_beta)

lemma Bass_main_Suc:
  "fst (Bass_main f (Suc k) s) = fst (Bass_step f (fst (Bass_main f k s)))"
  "snd (Bass_main f (Suc k) s)
     = snd (Bass_main f k s) @ [snd (Bass_step f (fst (Bass_main f k s)))]"
  by (simp_all add: split_beta)

lemma Bass_init_fields [simp]: "playHead_b Bass_init = 0" "rootIdx Bass_init = 0"
  by (simp_all add: Bass_init_def)

lemma Bass_main_indices:
  "playHead_b (fst (Bass_main f k Bass_init)) = k mod 32
   \<and> rootIdx (fst (Bass_main f k Bass_init)) = (k div 32) mod 8"
proof (induction k)
  case 0
  show ?case by simp
next
  case (Suc k)
  then show ?case
    by (simp add: Bass_main_Suc Bass_step_fields mod_Suc_eq div_Suc mod_Suc del: Bass_main.simps(2))
qed

lemma arp_at: "at_wrap arp (int (k mod 32) mod 4) = arp ! (k mod 4)"
proof -
  have "int (k mod 32) mod 4 = int (k mod 4)"
    by (simp add: zmod_int mod_mod_cancel flip: of_nat_mod)
  then show ?thesis by (simp add: at_wrap_def wrap_to_def arp_def)
qed

lemma rootNotes_at: "at_wrap rootNotes (int (r mod 8)) = rootNotes ! (r mod 8)"
proof -
  have "nat (int (r mod 8) mod 8) = r mod 8"
    by (simp flip: of_nat_mod)
  then show ?thesis by (simp add: at_wrap_def wrap_to_def rootNotes_def del: of_nat_mod)
qed

lemma Bass_main_noteNumber:
  "Bass_noteNumber (fst (Bass_main f k Bass_init))
     = arp ! (k mod 4) + rootNotes ! ((k div 32) mod 8) - 12"
  by (simp add: Bass_noteNumber_def Bass_main_indices arp_at rootNotes_at)

lemma Bass_main_notes:
  "map fst (snd (Bass_main f k Bass_init))
     = map (\<lambda>i. arp ! (i mod 4) + rootNotes ! ((i div 32) mod 8) - 12) [0..<k]"
proof (induction k)
  case 0
  show ?case by simp
next
  case (Suc k)
  then show ?case
    by (simp add: Bass_main_Suc Bass_step_fields Bass_main_noteNumber del: Bass_main.simps(2))
qed

lemma Bass_main_lengths:
  "map (\<lambda>note. length (snd note)) (snd (Bass_main f k Bass_init))
     = replicate k (nat (samplesPerQuarterNote f))"
proof (induction k)
  case 0
  show ?case by simp
next
  case (Suc k)
  then show ?case
    by (simp add: Bass_main_Suc Bass_step_fields replicate_append_same del: Bass_main.simps(2))
qed

text \<open>
  C6: in a render of the Bass from its initial state, the note number synthesized in
  quarter note \<open>i\<close> (counted from 0) is \<open>arp[i mod 4] + rootNotes[(i div 32) mod 8] - 12\<close>, with
  \<open>arp\<close> the cycle 57, 57, 59, 60; every quarter note has \<open>samplesPerQuarterNote\<close> frames;
  after \<open>k\<close> quarter notes the playhead is \<open>k mod 32\<close> and the root index is
  \<open>(k div 32) mod 8\<close>, so it moves on once every 32 quarter notes, at the wrap of the
  playhead; and the note number of the next quarter note is computed from that root index.
\<close>

theorem Bass_arpeggio_and_root:
  "map fst (snd (Bass_main f k Bass_init))
     = map (\<lambda>i. arp ! (i mod 4) + rootNotes ! ((i div 32) mod 8) - 12) [0..<k]
   \<and> arp = [57, 57, 59, 60]
   \<and> map (\<lambda>note. length (snd note)) (snd (Bass_main f k Bass_init))
       = replicate k (nat (samplesPerQuarterNote f))
   \<and> playHead_b (fst (Bass_main f k Bass_init)) = k mod 32
   \<and> rootIdx (fst (Bass_main f k Bass_init)) = (k div 32) mod 8
   \<and> Bass_noteNumber (fst (Bass_main f k Bass_init))
       = arp ! (k mod 4) + rootNotes ! (rootIdx (fst (Bass_main f k Bass_init))) - 12"
  using Bass_main_notes [of f k] Bass_main_lengths [of f k] Bass_main_indices [of f k]
    Bass_main_noteNumber [of f k]
  by (simp add: arp_def)

theorem Bass_arpeggio_and_root_witness:
  "map fst (snd (Bass_main 44100 6 Bass_init)) = [45, 45, 47, 48, 45, 45]
   \<and> map (\<lambda>note. length (snd note)) (snd (Bass_main 44100 6 Bass_init)) = replicate 6 4900
   \<and> rootIdx (fst (Bass_main 44100 64 Bass_init)) = 2
   \<and> Bass_noteNumber (fst (Bass_main 44100 64 Bass_init)) = 52"
proof -
  have upt6: "[0..<6] = [0, 1, 2, 3, 4, 5::nat]" by (simp add: upt_rec)
  have r: "rootIdx (fst (Bass_main 44100 64 Bass_init)) = 2"
    using Bass_arpeggio_and_root [of 44100 64] by simp
  have n: "Bass_noteNumber (fst (Bass_main 44100 64 Bass_init)) = 52"
    using Bass_arpeggio_and_root [of 44100 64] by (simp only: r) (simp add: arp_def rootNotes_def)
  have "map fst (snd (Bass_main 44100 6 Bass_init)) = [45, 45, 47, 48, 45, 45]
      \<and> map (\<lambda>note. length (snd note)) (snd (Bass_main 44100 6 Bass_init)) = replicate 6 4900"
    using Bass_arpeggio_and_root [of 44100 6]
    by (simp only: upt6 samplesPerQuarterNote_44100) (simp add: arp_def rootNotes_def)
  then show ?thesis using r n by blast
qed

subsection \<open>Cyclic indices\<close>

lemma pitchArray_length: "length pitchArray = 15"
  by (simp add: pitchArray_def)

lemma Lead_inv_iff: "Lead_inv s \<longleftrightarrow> playHead s < 256 \<and> pitchIdx s < 15"
  by (simp add: Lead_inv_def triggerArray_length pitchArray_length)

lemma rootNotes_length: "length rootNotes = 8"
  by (simp add: rootNotes_def)

lemma arp_length: "length arp = 4"
  by (simp add: arp_def)

lemma Bass_inv_iff: "Bass_inv s \<longleftrightarrow> playHead_b s < 32 \<and> rootIdx s < 8"
  by (simp add: Bass_inv_def rootNotes_length)

lemma Lead_frame_inv: "Lead_inv s \<Longrightarrow> Lead_inv (fst (Lead_frame trigs f s))"
proof -
  assume inv: "Lead_inv s"
  have "pitchIdx (fst (Lead_frame trigs f s)) < 15"
  proof (cases "trigs ! playHead s > 0 \<and> trig s")
    case True
    then show ?thesis using Lead_frame_struck [of trigs s f] by simp
  next
    case False
    then show ?thesis using Lead_frame_not_struck [of trigs s f] inv by (simp add: Lead_inv_iff)
  qed
  then show ?thesis using inv by (simp add: Lead_inv_iff)
qed

lemma Lead_step_end_inv: "Lead_inv s \<Longrightarrow> Lead_inv (Lead_step_end s)"
  by (simp add: Lead_inv_iff)

lemma Lead_note_inv:
  "Lead_inv s \<Longrightarrow>
     Lead_inv (fst (Lead_note trigs f n s))
     \<and> (\<forall>fr \<in> set (snd (Lead_note trigs f n s)). Lead_inv (fst fr))"
proof (induction n arbitrary: s)
  case 0
  then show ?case by simp
next
  case (Suc n)
  have "Lead_inv (fst (Lead_frame trigs f s))" using Suc.prems by (rule Lead_frame_inv)
  with Suc.IH [OF this] show ?case by (simp add: split_beta)
qed

lemma Lead_main_inv:
  "Lead_inv s \<Longrightarrow>
     Lead_inv (fst (Lead_main trigs f k s))
     \<and> (\<forall>fr \<in> set (snd (Lead_main trigs f k s)). Lead_inv (fst fr))"
proof (induction k)
  case 0
  then show ?case by simp
next
  case (Suc k)
  then have IH: "Lead_inv (fst (Lead_main trigs f k s))"
    "\<forall>fr \<in> set (snd (Lead_main trigs f k s)). Lead_inv (fst fr)" by simp_all
  from Lead_note_inv [OF IH(1), of trigs f "nat (samplesPerQuarterNote f)"] IH(2)
  show ?case
    by (auto simp add: Lead_main_Suc Lead_step_state Lead_step_frames Lead_step_end_inv
        simp del: Lead_main.simps(2))
qed

lemma Bass_main_inv:
  "Bass_inv s \<Longrightarrow>
     Bass_inv (fst (Bass_main f k s))
     \<and> (\<forall>note \<in> set (snd (Bass_main f k s)). \<forall>fr \<in> set (snd note). Bass_inv (fst fr))"
proof (induction k)
  case 0
  then show ?case by simp
next
  case (Suc k)
  let ?s = "fst (Bass_main f k s)"
  from Suc have IH: "Bass_inv ?s"
    "\<forall>note \<in> set (snd (Bass_main f k s)). \<forall>fr \<in> set (snd note). Bass_inv (fst fr)" by simp_all
  have frames: "\<forall>fr \<in> set (snd (snd (Bass_step f ?s))). Bass_inv (fst fr)"
    using Bass_step_frames_fixed [of _ f ?s] IH(1) by (simp add: Bass_inv_iff)
  have "Bass_inv (fst (Bass_step f ?s))"
    using IH(1) by (simp add: Bass_inv_iff Bass_step_fields)
  then show ?case
    using IH(2) frames by (auto simp add: Bass_main_Suc simp del: Bass_main.simps(2))
qed

lemma Delay_loop_indices:
  "Delay_inv s \<Longrightarrow> fr \<in> set (snd (Delay_loop fb dt s ins)) \<Longrightarrow>
     bufferIdx (fst fr) < length (buffer (fst fr))
     \<and> Delay_readIdx dt (fst fr) < length (buffer (fst fr))"
proof -
  assume inv: "Delay_inv s" and mem: "fr \<in> set (snd (Delay_loop fb dt s ins))"
  have "(fst fr, snd fr) \<in> set (snd (Delay_loop fb dt s ins))" using mem by simp
  from Delay_loop_inv [OF inv this] show ?thesis
    by (simp add: Delay_inv_def Delay_readIdx_less)
qed

lemma Bass_main_note_length:
  assumes "i < k"
  shows "i < length (snd (Bass_main f k Bass_init))
     \<and> length (snd (snd (Bass_main f k Bass_init) ! i)) = nat (samplesPerQuarterNote f)"
proof -
  let ?notes = "snd (Bass_main f k Bass_init)"
  have eq: "map (\<lambda>note. length (snd note)) ?notes = replicate k (nat (samplesPerQuarterNote f))"
    by (rule Bass_main_lengths)
  then have "length (map (\<lambda>note. length (snd note)) ?notes) = k" by simp
  then have len: "length ?notes = k" by simp
  have "map (\<lambda>note. length (snd note)) ?notes ! i = nat (samplesPerQuarterNote f)"
    using assms by (simp only: eq) simp
  then show ?thesis using len assms by simp
qed

text \<open>
  C8: for any number of frames and of quarter notes, at any sample rate and for any delay
  time, however large or negative: the write cursor and the read position of the delay lie
  within its buffer in the initial state and after every frame; the playhead and the pitch
  index of the Lead lie within the trigger pattern and the pitch array after every frame
  and every quarter note; the playhead and the root index of the Bass lie within 32 and
  the root-note array after every frame and every quarter note; and the positions read
  through \<^verbatim>\<open>at\<close> lie within their arrays for any index.
\<close>

theorem cyclic_indices_stay_in_bounds:
  "bufferIdx Delay_init < length (buffer Delay_init)
   \<and> Delay_readIdx dt Delay_init < length (buffer Delay_init)
   \<and> (\<forall>fr \<in> set (snd (Delay_loop feedbackLevel dt Delay_init ins)).
         bufferIdx (fst fr) < length (buffer (fst fr))
         \<and> Delay_readIdx dt (fst fr) < length (buffer (fst fr)))
   \<and> Lead_inv (fst (Lead_main triggerArray f k Lead_init))
   \<and> (\<forall>fr \<in> set (snd (Lead_main triggerArray f k Lead_init)). Lead_inv (fst fr))
   \<and> wrap_to (length pitchArray) i < length pitchArray
   \<and> Bass_inv (fst (Bass_main f k Bass_init))
   \<and> (\<forall>note \<in> set (snd (Bass_main f k Bass_init)). \<forall>fr \<in> set (snd note). Bass_inv (fst fr))
   \<and> wrap_to (length arp) j < length arp
   \<and> wrap_to (length rootNotes) l < length rootNotes"
proof -
  have d0: "bufferIdx Delay_init < length (buffer Delay_init)
      \<and> Delay_readIdx dt Delay_init < length (buffer Delay_init)"
    using Delay_init_inv by (simp add: Delay_inv_def Delay_readIdx_less)
  have d: "\<forall>fr \<in> set (snd (Delay_loop feedbackLevel dt Delay_init ins)).
         bufferIdx (fst fr) < length (buffer (fst fr))
         \<and> Delay_readIdx dt (fst fr) < length (buffer (fst fr))"
    using Delay_loop_indices [OF Delay_init_inv] by blast
  have l0: "Lead_inv Lead_init" by (simp add: Lead_inv_iff)
  have b0: "Bass_inv Bass_init" by (simp add: Bass_inv_iff)
  have w: "wrap_to (length pitchArray) i < length pitchArray \<and> wrap_to (length arp) j < length arp
      \<and> wrap_to (length rootNotes) l < length rootNotes"
    by (simp add: wrap_to_less pitchArray_length arp_length rootNotes_length)
  show ?thesis
    using d0 d Lead_main_inv [OF l0, of triggerArray f k] Bass_main_inv [OF b0, of f k] w
    by blast
qed

theorem cyclic_indices_stay_in_bounds_witness:
  "Delay_readIdx 84906 (fst (snd (Delay_loop 0.35 84906 Delay_init [1, 0]) ! 1))
       < length (buffer (fst (snd (Delay_loop 0.35 84906 Delay_init [1, 0]) ! 1)))
   \<and> Lead_inv (fst (snd (Lead_main triggerArray 44100 300 Lead_init) ! 1254400))
   \<and> Bass_inv (fst (Bass_main 44100 300 Bass_init))
   \<and> Bass_inv (fst (snd (snd (Bass_main 44100 300 Bass_init) ! 299) ! 4899))"
proof -
  let ?d = "snd (Delay_loop 0.35 84906 Delay_init [1, 0])"
  let ?l = "snd (Lead_main triggerArray 44100 300 Lead_init)"
  let ?b = "snd (Bass_main 44100 300 Bass_init)"
  have "length ?d = 2" by (simp only: Delay_loop_length) simp
  then have d: "?d ! 1 \<in> set ?d" by simp
  have "length ?l = 1470000" by (simp add: Lead_main_length samplesPerQuarterNote_44100)
  then have l: "?l ! 1254400 \<in> set ?l" by simp
  have "(299::nat) < 300" by simp
  from Bass_main_note_length [OF this, of 44100]
  have b: "?b ! 299 \<in> set ?b" and "length (snd (?b ! 299)) = 4900"
    by (simp_all add: samplesPerQuarterNote_44100)
  then have fr: "snd (?b ! 299) ! 4899 \<in> set (snd (?b ! 299))" by simp
  from cyclic_indices_stay_in_bounds [of 84906 "0.35" "[1, 0]" 44100 300] d l b fr
  show ?thesis by blast
qed

subsection \<open>The graph: the delay during the first ticks\<close>

lemma Lead_out_length:
  "length (Lead_out f n) = min n (n * nat (samplesPerQuarterNote f))"
  by (simp add: Lead_out_def Lead_main_length min.commute)

lemma Lead_out_muted:
  assumes "t < length (Lead_out f n)" "t < 256 * nat (samplesPerQuarterNote f)"
  shows "Lead_out f n ! t = 0"
proof -
  let ?frames = "snd (Lead_main triggerArray f n Lead_init)"
  from assms(1) have t: "t < n" "t < length ?frames" by (simp_all add: Lead_out_def)
  then have "Lead_out f n ! t = snd (?frames ! t)" by (simp add: Lead_out_def)
  then show ?thesis using Lead_main_tick [OF t(2)] assms(2) by simp
qed

lemma Bass_main_frames_length:
  "length (concat (map snd (snd (Bass_main f k s)))) = k * nat (samplesPerQuarterNote f)"
  by (induction k) (simp_all add: Bass_main_Suc Bass_step_fields del: Bass_main.simps(2))

lemma Bass_out_length:
  "length (Bass_out f n) = min n (n * nat (samplesPerQuarterNote f))"
  by (simp add: Bass_out_def Bass_main_frames_length min.commute)

lemma Delay_out_length: "length (Delay_out f n) = length (Lead_out f n)"
  by (simp add: Delay_out_def Delay_main_length)

lemma Replicant_length:
  "length (Replicant f n) = min n (n * nat (samplesPerQuarterNote f))"
  by (simp add: Replicant_def Bass_out_length Lead_out_length Delay_out_length)

lemma zero_buffer_init: "zero_buffer Delay_init"
  by (simp add: zero_buffer_iff Delay_init_def)

lemma Delay_out_muted:
  assumes "t < length (Lead_out f n)" "t \<le> 256 * nat (samplesPerQuarterNote f)"
  shows "Delay_out f n ! t = 0"
proof -
  have zeros: "\<forall>i<t. Lead_out f n ! i = 0"
    using assms Lead_out_muted [of _ f n] by simp
  have "t < length (Delay_main 0.35 f (Lead_out f n))"
    using assms(1) by (simp add: Delay_main_length)
  then have "Delay_out f n ! t = snd (Delay_main 0.35 f (Lead_out f n) ! t)"
    by (simp add: Delay_out_def)
  also have "\<dots> = 0"
    using Delay_loop_zero_prefix [OF Delay_init_inv zero_buffer_init assms(1) zeros]
    by (simp add: Delay_main_def)
  finally show ?thesis .
qed

lemma scaled_below:
  fixes x q :: real
  assumes "x < q + 1" "1 \<le> q"
  shows "x * (8346665 / 2097152) < 256 * q"
proof -
  have "x * (8346665 / 2097152) < (q + 1) * (8346665 / 2097152)" using assms(1) by simp
  also have "\<dots> \<le> 256 * q" using assms(2) by (simp add: algebra_simps)
  finally show ?thesis .
qed

lemma delayTime_within_muted_pass:
  assumes "0 < samplesPerQuarterNote f"
  shows "delayTime f \<le> 256 * samplesPerQuarterNote f"
proof -
  have f: "0 \<le> f"
  proof (rule ccontr)
    assume "\<not> 0 \<le> f"
    then have "f / 9 < 0" by simp
    then have "\<lceil>f / 9\<rceil> \<le> 0" by (simp add: ceiling_le_iff)
    then show False using assms \<open>\<not> 0 \<le> f\<close>
      by (simp add: samplesPerQuarterNote_def to_int_def clock_def)
  qed
  then have spq: "samplesPerQuarterNote f = \<lfloor>f / 9\<rfloor>"
    by (simp add: samplesPerQuarterNote_def to_int_def clock_def)
  let ?Q = "\<lfloor>f / 9\<rfloor>"
  have Q: "1 \<le> ?Q" using assms spq by simp
  have below: "f / 9 < real_of_int ?Q + 1" by linarith
  have "1 \<le> real_of_int ?Q" using Q by simp
  with below have "f / 9 * (8346665 / 2097152) < 256 * real_of_int ?Q" by (rule scaled_below)
  then have "f / 9 * (8346665 / 2097152) < real_of_int (256 * ?Q)" by simp
  then have "\<lfloor>f / 9 * (8346665 / 2097152)\<rfloor> < 256 * ?Q" by (simp only: floor_less_iff)
  then show ?thesis using f spq by (simp add: delayTime_nonneg_eq)
qed

text \<open>
  The delay on any input: while the write cursor has not come round to a cell, the cell
  still holds its initial zero, and a read that lies \<open>dt\<close> cells back, with \<open>dt\<close> within the
  capacity, falls on such a cell during the first \<open>dt\<close> frames.
\<close>

lemma Delay_loop_silent_start:
  "Delay_inv s \<Longrightarrow> \<forall>i. bufferIdx s \<le> i \<and> i < 44100 \<longrightarrow> buffer s ! i = 0 \<Longrightarrow>
     int (bufferIdx s + t) < dt \<Longrightarrow> dt \<le> 44100 \<Longrightarrow> t < length ins \<Longrightarrow>
     snd (snd (Delay_loop fb dt s ins) ! t) = 0"
proof (induction ins arbitrary: s t)
  case Nil
  then show ?case by simp
next
  case (Cons x ins)
  let ?c = "bufferIdx s"
  show ?case
  proof (cases t)
    case 0
    from Cons.prems(3,4) 0 have range: "int ?c < dt" "dt \<le> 44100" by simp_all
    then have "(int ?c - dt + 44100) mod 44100 = int ?c - dt + 44100"
      by (intro mod_pos_pos_trivial) simp_all
    moreover have "(int ?c - dt + 44100) mod 44100 = (int ?c - dt) mod 44100"
      by simp
    ultimately have "(int ?c - dt) mod 44100 = int ?c - dt + 44100"
      by simp
    then have "Delay_readIdx dt s = nat (int ?c - dt + 44100)"
      by (simp add: Delay_readIdx_def wrap_to_def)
    then have "?c \<le> Delay_readIdx dt s \<and> Delay_readIdx dt s < 44100"
      using range by (simp add: Delay_readIdx_less) linarith
    then have "buffer s ! Delay_readIdx dt s = 0" using Cons.prems(2) by blast
    then show ?thesis using 0 by (simp add: split_beta Delay_frame_def Let_def)
  next
    case (Suc t')
    let ?s1 = "fst (Delay_frame fb dt s x)"
    from Cons.prems(3,4) Suc have c: "?c + 1 < 44100" by simp
    have inv1: "Delay_inv ?s1" using Cons.prems(1) by (rule Delay_frame_inv)
    have idx1: "bufferIdx ?s1 = ?c + 1"
      using c by (simp add: Delay_frame_def Let_def)
    have zeros1: "\<forall>i. bufferIdx ?s1 \<le> i \<and> i < 44100 \<longrightarrow> buffer ?s1 ! i = 0"
      using Cons.prems(2) by (simp add: idx1) (simp add: Delay_frame_def Let_def)
    have before: "int (bufferIdx ?s1 + t') < dt"
      using Cons.prems(3) Suc by (simp add: idx1)
    have len: "t' < length ins" using Cons.prems(5) Suc by simp
    from Cons.IH [OF inv1 zeros1 before Cons.prems(4) len] show ?thesis
      using Suc by (simp add: split_beta)
  qed
qed

lemma Delay_init_zeros: "\<forall>i. bufferIdx Delay_init \<le> i \<and> i < 44100 \<longrightarrow> buffer Delay_init ! i = 0"
  by (simp add: Delay_init_def)

lemma Delay_main_silent_start:
  assumes "int t < delayTime f" "delayTime f \<le> 44100" "t < length ins"
  shows "snd (Delay_main fb f ins ! t) = 0"
proof -
  have "int (bufferIdx Delay_init + t) < delayTime f"
    using assms(1) by (simp add: Delay_init_def)
  from Delay_loop_silent_start [OF Delay_init_inv Delay_init_zeros this assms(2,3)]
  show ?thesis by (simp add: Delay_main_def)
qed

text \<open>The graph: the delay is fed the Lead, which is muted for 256 quarter notes.\<close>

lemma Replicant_delay_silent:
  assumes "int t < delayTime f" and "t < length (Replicant f n)"
  shows "Delay_out f n ! t = 0
     \<and> Replicant f n ! t = Bass_out f n ! t + Lead_out f n ! t"
proof -
  let ?q = "nat (samplesPerQuarterNote f)"
  from assms(2) have t: "t < n" "t < n * ?q" by (simp_all add: Replicant_length)
  then have q: "0 < samplesPerQuarterNote f" by (cases "0 < samplesPerQuarterNote f") simp_all
  have lens: "t < length (Bass_out f n)" "t < length (Lead_out f n)" "t < length (Delay_out f n)"
    using t by (simp_all add: Bass_out_length Lead_out_length Delay_out_length)
  have "int t < 256 * samplesPerQuarterNote f"
    using assms(1) delayTime_within_muted_pass [OF q] by simp
  then have "t \<le> 256 * ?q" using q by linarith
  then have silent: "Delay_out f n ! t = 0"
    using lens(2) by (rule Delay_out_muted [rotated])
  have "Replicant f n ! t = Bass_out f n ! t + Lead_out f n ! t + Delay_out f n ! t"
    using lens by (simp add: Replicant_def)
  then show ?thesis using silent by simp
qed

lemma delayTime_44100: "delayTime 44100 = 19502"
  by (simp add: delayTime_nonneg_eq)

text \<open>
  C9: in a render of the graph, at every tick \<open>t\<close> before \<open>delayTime\<close> the output of the
  delay is exactly 0, and the output of the graph is the sum of the outputs of Bass and Lead;
  this holds at every sample rate. Moreover, when the delay time is within the capacity of
  the buffer, the delay is silent during its first \<open>delayTime\<close> frames on any input, since
  the cells it reads still hold their initial zero.
\<close>

theorem Delay_silent_for_first_delayTime_ticks:
  "(int t < delayTime f \<and> t < length (Replicant f n) \<longrightarrow>
      Delay_out f n ! t = 0
      \<and> Replicant f n ! t = Bass_out f n ! t + Lead_out f n ! t)
   \<and> (int t < delayTime f \<and> delayTime f \<le> 44100 \<and> t < length ins \<longrightarrow>
      snd (Delay_main feedbackLevel f ins ! t) = 0)"
  using Replicant_delay_silent [of t f n] Delay_main_silent_start [of t f ins feedbackLevel]
  by blast

theorem Delay_silent_for_first_delayTime_ticks_witness:
  "int 19501 < delayTime 44100 \<and> 19501 < length (Replicant 44100 30000)
   \<and> delayTime 44100 \<le> 44100 \<and> 19501 < length (replicate 30000 (1::real))
   \<and> Delay_out 44100 30000 ! 19501 = 0
   \<and> Replicant 44100 30000 ! 19501 = Bass_out 44100 30000 ! 19501 + Lead_out 44100 30000 ! 19501
   \<and> snd (Delay_main 0.35 44100 (replicate 30000 1) ! 19501) = 0"
proof -
  have a: "int 19501 < delayTime 44100" by (simp add: delayTime_44100)
  have b: "19501 < length (Replicant 44100 30000)"
    by (simp add: Replicant_length samplesPerQuarterNote_44100)
  have c: "delayTime 44100 \<le> 44100" by (simp add: delayTime_44100)
  have d: "19501 < length (replicate 30000 (1::real))" by simp
  from Delay_silent_for_first_delayTime_ticks [of 19501 44100 30000 "replicate 30000 1" "0.35"]
    a b c d
  show ?thesis by blast
qed

subsection \<open>The phase accumulators of the engine\<close>

lemma noteToFrequency_pos: "0 < noteToFrequency note"
  by (simp add: noteToFrequency_def)

lemma period_pos: "0 < f \<Longrightarrow> 0 < period f"
  by (simp add: period_def)

lemma processPhasor_unit:
  "0 \<le> phase \<Longrightarrow> 0 \<le> phaseIncr \<Longrightarrow> unit_phase (fst (processPhasor phase phaseIncr))"
  using processPhasor_nonneg_range [of phase phaseIncr] by (simp add: unit_phase_def)

lemma Lead_trigger_phasors [simp]:
  "osc1Phasor (Lead_trigger trigs s) = osc1Phasor s"
  "osc2Phasor (Lead_trigger trigs s) = osc2Phasor s"
  "lfoPhasor (Lead_trigger trigs s) = lfoPhasor s"
  by (simp_all add: Lead_trigger_def)

lemma Lead_voice_phasors:
  "osc1Phasor (fst (Lead_voice f s))
     = fst (processPhasor (osc1Phasor s)
         (noteToFrequency (real_of_int (basePitch s)
            + (sin (fst (processPhasor (lfoPhasor s) (lfoPhaseIncr f)) * twoPi) * 0.1)
              * (fst (processSmoother (smootherOutm1 s) (clamp (envPhasor s + envPhaseIncr f) 0 1))
                 * gate s))
          * period f))"
  "osc2Phasor (fst (Lead_voice f s))
     = fst (processPhasor (osc2Phasor s)
         (noteToFrequency (real_of_int (basePitch s)
            + (sin (fst (processPhasor (lfoPhasor s) (lfoPhaseIncr f)) * twoPi) * 0.1)
              * (fst (processSmoother (smootherOutm1 s) (clamp (envPhasor s + envPhaseIncr f) 0 1))
                 * gate s)
            + 0.1)
          * period f))"
  "lfoPhasor (fst (Lead_voice f s)) = fst (processPhasor (lfoPhasor s) (lfoPhaseIncr f))"
  by (simp_all add: Lead_voice_def Let_def split_beta processPhasor_def processSmoother_def)

lemma Lead_frame_phases:
  assumes "0 < f" "Lead_phases s"
  shows "Lead_phases (fst (Lead_frame trigs f s))"
proof -
  have nn: "0 \<le> osc1Phasor s" "0 \<le> osc2Phasor s" "0 \<le> lfoPhasor s"
    using assms(2) by (simp_all add: Lead_phases_def unit_phase_def)
  have incr: "0 \<le> noteToFrequency x * period f" for x
    using noteToFrequency_pos [of x] period_pos [OF assms(1)] by simp
  have lfo: "0 \<le> lfoPhaseIncr f"
    using period_pos [OF assms(1)] by (simp add: lfoPhaseIncr_def)
  show ?thesis
    using nn incr lfo
    by (simp only: Lead_phases_def Lead_frame_def Lead_voice_phasors Lead_trigger_phasors
        processPhasor_unit)
qed

lemma Lead_step_end_phases: "Lead_phases (Lead_step_end s) = Lead_phases s"
  by (simp add: Lead_phases_def Lead_step_end_def Let_def)

lemma Lead_note_phases:
  "0 < f \<Longrightarrow> Lead_phases s \<Longrightarrow>
     Lead_phases (fst (Lead_note trigs f n s))
     \<and> (\<forall>fr \<in> set (snd (Lead_note trigs f n s)). Lead_phases (fst fr))"
proof (induction n arbitrary: s)
  case 0
  then show ?case by simp
next
  case (Suc n)
  have "Lead_phases (fst (Lead_frame trigs f s))" using Suc.prems by (rule Lead_frame_phases)
  with Suc.IH [OF Suc.prems(1) this] show ?case by (simp add: split_beta)
qed

lemma Lead_main_phases:
  "0 < f \<Longrightarrow> Lead_phases s \<Longrightarrow>
     Lead_phases (fst (Lead_main trigs f k s))
     \<and> (\<forall>fr \<in> set (snd (Lead_main trigs f k s)). Lead_phases (fst fr))"
proof (induction k)
  case 0
  then show ?case by simp
next
  case (Suc k)
  then have IH: "Lead_phases (fst (Lead_main trigs f k s))"
    "\<forall>fr \<in> set (snd (Lead_main trigs f k s)). Lead_phases (fst fr)" by simp_all
  from Lead_note_phases [OF Suc.prems(1) IH(1), of trigs "nat (samplesPerQuarterNote f)"] IH(2)
  show ?case
    by (auto simp add: Lead_main_Suc Lead_step_state Lead_step_frames Lead_step_end_phases
        simp del: Lead_main.simps(2))
qed

lemma Lead_init_phases: "Lead_phases Lead_init"
  by (simp add: Lead_phases_def unit_phase_def Lead_init_def)

lemma Bass_frame_phases:
  assumes "0 \<le> i1" "0 \<le> i2" "0 \<le> il" "Bass_phases (fst se)"
  shows "Bass_phases (fst (fst (Bass_frame i1 i2 il spq se)))"
proof -
  have nn: "0 \<le> osc1Phasor_b (fst se)" "0 \<le> osc2Phasor_b (fst se)" "0 \<le> lfoPhasor_b (fst se)"
    using assms(4) by (simp_all add: Bass_phases_def unit_phase_def)
  show ?thesis
    using processPhasor_unit [OF nn(1) assms(1)] processPhasor_unit [OF nn(2) assms(2)]
      processPhasor_unit [OF nn(3) assms(3)]
    by (simp add: Bass_phases_def Bass_frame_def Let_def split_beta)
qed

lemma Bass_note_phases:
  "0 \<le> i1 \<Longrightarrow> 0 \<le> i2 \<Longrightarrow> 0 \<le> il \<Longrightarrow> Bass_phases (fst se) \<Longrightarrow>
     Bass_phases (fst (fst (Bass_note i1 i2 il spq n se)))
     \<and> (\<forall>fr \<in> set (snd (Bass_note i1 i2 il spq n se)). Bass_phases (fst fr))"
proof (induction n arbitrary: se)
  case 0
  then show ?case by simp
next
  case (Suc n)
  have "Bass_phases (fst (fst (Bass_frame i1 i2 il spq se)))"
    using Suc.prems by (rule Bass_frame_phases)
  with Suc.IH [OF Suc.prems(1-3) this] show ?case by (simp add: split_beta)
qed

lemma Bass_step_end_phases: "Bass_phases (Bass_step_end s) = Bass_phases s"
  by (simp add: Bass_phases_def Bass_step_end_def Let_def)

lemma Bass_step_phases:
  assumes "0 < f" "Bass_phases s"
  shows "Bass_phases (fst (Bass_step f s))
     \<and> (\<forall>fr \<in> set (snd (snd (Bass_step f s))). Bass_phases (fst fr))"
proof -
  let ?nf = "noteToFrequency (real_of_int (Bass_noteNumber s))"
  have p: "0 < period f" using assms(1) by (rule period_pos)
  have i1: "0 \<le> ?nf * period f" using noteToFrequency_pos [of "real_of_int (Bass_noteNumber s)"] p by simp
  have i2: "0 \<le> ?nf * period f * 0.5" using i1 by simp
  have il: "0 \<le> 0.3 * period f" using p by simp
  have start: "Bass_phases (fst (s, 1::real))" using assms(2) by simp
  from Bass_note_phases [OF i1 i2 il start, of "samplesPerQuarterNote f" "nat (samplesPerQuarterNote f)"]
  show ?thesis
    by (simp add: Bass_step_def Let_def split_beta Bass_step_end_phases)
qed

lemma Bass_main_phases:
  "0 < f \<Longrightarrow> Bass_phases s \<Longrightarrow>
     Bass_phases (fst (Bass_main f k s))
     \<and> (\<forall>note \<in> set (snd (Bass_main f k s)). \<forall>fr \<in> set (snd note). Bass_phases (fst fr))"
proof (induction k)
  case 0
  then show ?case by simp
next
  case (Suc k)
  then have IH: "Bass_phases (fst (Bass_main f k s))"
    "\<forall>note \<in> set (snd (Bass_main f k s)). \<forall>fr \<in> set (snd note). Bass_phases (fst fr)"
    by simp_all
  from Bass_step_phases [OF Suc.prems(1) IH(1)] IH(2)
  show ?case
    by (auto simp add: Bass_main_Suc simp del: Bass_main.simps(2))
qed

lemma Bass_init_phases: "Bass_phases Bass_init"
  by (simp add: Bass_phases_def unit_phase_def Bass_init_def)

lemma phasor_run_small_negative: "phasor_run 0 [- (1 / 2 ^ 30)] = [1]"
  by (simp only: phasor_run.simps processPhasor_small_negative split_conv Let_def)

text \<open>
  C7, as stated: for every sequence of increments the phase held after each advance is below
  1. From the phase 0, the increment \<open>-2^(-30)\<close>, a 32-bit number, leaves the remainder
  \<open>-2^(-30)\<close>; the 32-bit sum of that remainder and 1 is rounded to 1, and the accumulator
  holds exactly 1.
\<close>

theorem phasor_reaches_one_counterexample:
  "phasor_run 0 [- (1 / 2 ^ 30)] = [1] \<and> \<not> phasor_run 0 [- (1 / 2 ^ 30)] ! 0 < 1"
  by (simp only: phasor_run_small_negative) simp

text \<open>
  C7, amended: started at a phase that is at least 0 and below 1, a phase accumulator holds
  a phase that is at least 0 and at most 1 after every call of \<^verbatim>\<open>processPhasor\<close>, for every
  sequence of increments; the phase is below 1 at every tick when no increment is negative.
  That is the case of every phase accumulator of the engine at a sample rate of at least
  9 Hz: in every frame of Lead and of Bass the two oscillator phases and the phase of the
  slow oscillator are at least 0 and below 1.
\<close>

theorem phasor_in_unit_interval:
  "(0 \<le> phase \<and> phase < 1 \<longrightarrow>
        (\<forall>p \<in> set (phasor_run phase incrs). 0 \<le> p \<and> p \<le> 1))
   \<and> (0 \<le> phase \<and> phase < 1 \<and> (\<forall>i \<in> set incrs. 0 \<le> i) \<longrightarrow>
        (\<forall>p \<in> set (phasor_run phase incrs). 0 \<le> p \<and> p < 1))
   \<and> (9 \<le> f \<longrightarrow>
        (\<forall>fr \<in> set (snd (Lead_main triggerArray f k Lead_init)). Lead_phases (fst fr))
        \<and> (\<forall>note \<in> set (snd (Bass_main f k Bass_init)).
              \<forall>fr \<in> set (snd note). Bass_phases (fst fr)))"
  using phasor_run_closed [of phase incrs] phasor_run_nonneg [of phase incrs]
    Lead_main_phases [OF _ Lead_init_phases, of f triggerArray k]
    Bass_main_phases [OF _ Bass_init_phases, of f k]
  by force

lemma phasor_run_example: "phasor_run 0 [3 / 4, 1 / 2] = [3 / 4, 1 / 4]"
  by (simp only: phasor_run.simps processPhasor_example split_conv Let_def)

theorem phasor_in_unit_interval_witness:
  "phasor_run 0 [3 / 4, 1 / 2] = [3 / 4, 1 / 4]
   \<and> (0::real) \<le> 0 \<and> (0::real) < 1
   \<and> 0 \<le> phasor_run 0 [3 / 4, 1 / 2] ! 1 \<and> phasor_run 0 [3 / 4, 1 / 2] ! 1 < 1
   \<and> (9::real) \<le> 44100
   \<and> Lead_phases (fst (snd (Lead_main triggerArray 44100 1 Lead_init) ! 0))
   \<and> Bass_phases (fst (snd (snd (Bass_main 44100 1 Bass_init) ! 0) ! 0))"
proof -
  let ?r = "phasor_run 0 [3 / 4, 1 / 2]"
  let ?l = "snd (Lead_main triggerArray 44100 1 Lead_init)"
  let ?b = "snd (Bass_main 44100 1 Bass_init)"
  have mem: "?r ! 1 \<in> set ?r"
    by (simp only: phasor_run_example) simp
  have start: "(0::real) \<le> 0 \<and> (0::real) < 1 \<and> (\<forall>i \<in> set [3 / 4, 1 / 2 :: real]. 0 \<le> i)"
    by simp
  have f: "(9::real) \<le> 44100" by simp
  have "length ?l = 4900" by (simp only: Lead_main_length samplesPerQuarterNote_44100)
  then have l: "?l ! 0 \<in> set ?l" by simp
  have "(0::nat) < 1" by simp
  from Bass_main_note_length [OF this, of 44100]
  have b: "?b ! 0 \<in> set ?b" and "length (snd (?b ! 0)) = 4900"
    by (simp_all add: samplesPerQuarterNote_44100)
  then have fr: "snd (?b ! 0) ! 0 \<in> set (snd (?b ! 0))" by simp
  from phasor_in_unit_interval [of 0 "[3 / 4, 1 / 2]" 44100 1] mem start f l b fr
  have "0 \<le> ?r ! 1 \<and> ?r ! 1 < 1 \<and> Lead_phases (fst (?l ! 0))
      \<and> Bass_phases (fst (snd (?b ! 0) ! 0))"
    by blast
  then show ?thesis using f by (simp only: phasor_run_example) simp
qed

end
